theory Spec2Isabelle
  imports Complex_Main "HOL-Library.Monad_Syntax"
begin

section \<open>The program: hollow-sphere-ascii.cpp\<close>

text \<open>
  The renderer is embedded function by function. A C++ \<open>float\<close> is a real number.
  Where a float result decides a discrete outcome or is accumulated over the frames (the
  translated depth, its inverse and the products of \<open>writeVertex\<close>, the constants and
  the sums of \<open>updateAngles\<close>) every operation is followed by \<open>fl32\<close>, the rounding to
  the nearest binary32 value, and a result beyond the largest finite value is an
  infinity, whose conversion to \<open>int\<close> is undefined. The rotation and the sampling of
  the rings use the exact \<open>sqrt\<close>, \<open>sin\<close>, \<open>cos\<close> and arithmetic of the reals. A C++
  \<open>int\<close> is an \<open>int\<close> together with a range check: a conversion or an operation whose
  result leaves the 32-bit range is undefined in C++ and is the value \<open>None\<close> here. The
  global variables of the anonymous namespace are the fields of the record \<open>state\<close>.
\<close>

subsection \<open>Binary32 rounding\<close>

text \<open>Rounding of a real number to the nearest integer, a tie going to the even one.\<close>

definition round_even :: "real \<Rightarrow> int" where
  "round_even r =
     (if r - of_int \<lfloor>r\<rfloor> < 1 / 2 then \<lfloor>r\<rfloor>
      else if 1 / 2 < r - of_int \<lfloor>r\<rfloor> then \<lfloor>r\<rfloor> + 1
      else if even \<lfloor>r\<rfloor> then \<lfloor>r\<rfloor> else \<lfloor>r\<rfloor> + 1)"

definition pow2 :: "int \<Rightarrow> real" where
  "pow2 k = (if 0 \<le> k then 2 ^ nat k else 1 / 2 ^ nat (- k))"

text \<open>The binary exponent of a nonzero number, not below the exponent -126 of the
  smallest normal number, and the distance of neighbouring binary32 values at that
  exponent (24 significant bits).\<close>

definition expo32 :: "real \<Rightarrow> int" where
  "expo32 r = max \<lfloor>log 2 \<bar>r\<bar>\<rfloor> (- 126)"

definition ulp32 :: "real \<Rightarrow> real" where
  "ulp32 r = pow2 (expo32 r - 23)"

text \<open>The binary32 value nearest to a real number (round to nearest, ties to even,
  gradual underflow), not yet cut off at the largest finite value.\<close>

definition fl32 :: "real \<Rightarrow> real" where
  "fl32 r = (if r = 0 then 0 else real_of_int (round_even (r / ulp32 r)) * ulp32 r)"

definition FLT_MAX :: real where
  "FLT_MAX = (2 ^ 24 - 1) * 2 ^ 104"

text \<open>The float result of an operation whose exact result is \<open>r\<close>; \<open>None\<close> when it is an
  infinity.\<close>

definition float_checked :: "real \<Rightarrow> real option" where
  "float_checked r = (if \<bar>fl32 r\<bar> \<le> FLT_MAX then Some (fl32 r) else None)"

subsection \<open>Constants\<close>

definition SCREEN_WIDTH :: int where
  "SCREEN_WIDTH = 150"

definition SCREEN_HEIGHT :: int where
  "SCREEN_HEIGHT = 50"

definition SCREEN_SIZE :: int where
  "SCREEN_SIZE = SCREEN_WIDTH * SCREEN_HEIGHT"

definition SCREEN_DISTANCE :: int where
  "SCREEN_DISTANCE = 35"

definition X_OFFSET :: real where
  "X_OFFSET = real_of_int SCREEN_WIDTH / 2"

definition Y_OFFSET :: real where
  "Y_OFFSET = real_of_int SCREEN_HEIGHT / 2"

definition Z_OFFSET :: real where
  "Z_OFFSET = 20"

definition RADIUS :: real where
  "RADIUS = 10"

text \<open>The literal \<open>3.14159265358979323846f\<close>, as the decimal fraction it is written as.\<close>

definition PI :: real where
  "PI = 314159265358979323846 / 100000000000000000000"

definition DEGREE_180 :: real where
  "DEGREE_180 = 180"

text \<open>The literals \<open>0.005f\<close> and \<open>0.001f\<close> are the binary32 values nearest to the decimal
  fractions.\<close>

definition PITCH_DELTA :: real where
  "PITCH_DELTA = fl32 (5 / 1000)"

definition YAW_DELTA :: real where
  "YAW_DELTA = fl32 (5 / 1000)"

definition ROLL_DELTA :: real where
  "ROLL_DELTA = fl32 (1 / 1000)"

text \<open>The step \<open>0.025f\<close> of the loop of \<open>initRing\<close>.\<close>

definition RING_STEP :: real where
  "RING_STEP = 25 / 1000"

definition INT_MIN :: int where
  "INT_MIN = - 2147483648"

definition INT_MAX :: int where
  "INT_MAX = 2147483647"

subsection \<open>Data\<close>

text \<open>\<open>struct Vertex { float x, y, z; }\<close>; the fields carry a prefix, since \<open>x\<close>, \<open>y\<close>
  and \<open>z\<close> are wanted as variable names.\<close>

record Vertex =
  vx :: real
  vy :: real
  vz :: real

text \<open>The mutable globals: the three animation angles, the frame buffer and the
  depth buffer (two \<open>std::array\<close>s of \<open>SCREEN_SIZE\<close> cells).\<close>

record state =
  pitch :: real
  yaw :: real
  roll :: real
  frameBuffer :: "char list"
  depthBuffer :: "real list"

subsection \<open>Integer conversions\<close>

text \<open>\<open>static_cast<int>\<close> of a float drops the fraction (truncation toward zero); the
  behaviour is undefined when the truncated value is no \<open>int\<close>.\<close>

definition int_checked :: "int \<Rightarrow> int option" where
  "int_checked n = (if INT_MIN \<le> n \<and> n \<le> INT_MAX then Some n else None)"

definition trunc :: "real \<Rightarrow> int" where
  "trunc r = (if 0 \<le> r then \<lfloor>r\<rfloor> else \<lceil>r\<rceil>)"

definition static_cast_int :: "real \<Rightarrow> int option" where
  "static_cast_int r = int_checked (trunc r)"

subsection \<open>Terminal control and buffers\<close>

definition clearScreen :: string where
  "clearScreen = [CHR 0x1B, CHR ''['', CHR ''2'', CHR ''J'', CHR 0x1B, CHR ''['', CHR ''3'', CHR ''2'', CHR ''m'']"

definition resetCursor :: string where
  "resetCursor = [CHR 0x1B, CHR ''['', CHR ''H'']"

definition clearBuffers :: "state \<Rightarrow> state" where
  "clearBuffers s =
     s\<lparr>frameBuffer := replicate (nat SCREEN_SIZE) CHR '' '',
       depthBuffer := replicate (nat SCREEN_SIZE) 0\<rparr>"

definition degreesToRadians :: "real \<Rightarrow> real" where
  "degreesToRadians angle = (angle / DEGREE_180) * PI"

subsection \<open>Rotation\<close>

definition rotateCalcX :: "Vertex \<Rightarrow> real \<Rightarrow> real \<Rightarrow> real \<Rightarrow> real" where
  "rotateCalcX vertex alpha beta gamma =
     vx vertex * cos gamma * cos beta
     + vy vertex * (cos gamma * sin beta * sin alpha - sin gamma * cos alpha)
     + vz vertex * (sin gamma * sin alpha + cos gamma * sin beta * cos alpha)"

definition rotateCalcY :: "Vertex \<Rightarrow> real \<Rightarrow> real \<Rightarrow> real \<Rightarrow> real" where
  "rotateCalcY vertex alpha beta gamma =
     vx vertex * sin gamma * cos beta
     + vy vertex * (cos gamma * cos alpha + sin gamma * sin beta * sin alpha)
     + vz vertex * (sin gamma * sin beta * cos alpha - cos gamma * sin alpha)"

definition rotateCalcZ :: "Vertex \<Rightarrow> real \<Rightarrow> real \<Rightarrow> real \<Rightarrow> real" where
  "rotateCalcZ vertex alpha beta gamma =
     - vx vertex * sin beta
     + vy vertex * cos beta * sin alpha
     + vz vertex * cos beta * cos alpha"

definition rotate_vertex :: "Vertex \<Rightarrow> real \<Rightarrow> real \<Rightarrow> real \<Rightarrow> Vertex" where
  "rotate_vertex vertex alpha beta gamma =
     \<lparr>vx = rotateCalcX vertex alpha beta gamma,
      vy = rotateCalcY vertex alpha beta gamma,
      vz = rotateCalcZ vertex alpha beta gamma\<rparr>"

subsection \<open>Projection and the depth-tested write\<close>

text \<open>The locals of \<open>writeVertex\<close>, each as a function of the vertex. \<open>Z\<close> is the
  translated depth, \<open>OOZ\<close> its inverse, both rounded to binary32 as the float variables
  hold them; \<open>xProjection\<close> and \<open>yProjection\<close> are the values of the two variables after
  the offsets are added, \<open>idx\<close> the flattened index. The products are evaluated from
  left to right, each multiplication rounded; \<open>SCREEN_DISTANCE\<close> and \<open>2\<close> are converted to
  float exactly.\<close>

definition Z :: "Vertex \<Rightarrow> real" where
  "Z vertex = fl32 (vz vertex + Z_OFFSET)"

definition OOZ :: "Vertex \<Rightarrow> real" where
  "OOZ vertex = fl32 (1 / Z vertex)"

definition xProjection :: "Vertex \<Rightarrow> int option" where
  "xProjection vertex = do {
     a \<leftarrow> float_checked (real_of_int SCREEN_DISTANCE * OOZ vertex);
     b \<leftarrow> float_checked (a * vx vertex);
     c \<leftarrow> float_checked (b * 2);
     p \<leftarrow> static_cast_int c;
     off \<leftarrow> static_cast_int X_OFFSET;
     int_checked (p + off)
   }"

definition yProjection :: "Vertex \<Rightarrow> int option" where
  "yProjection vertex = do {
     a \<leftarrow> float_checked (real_of_int SCREEN_DISTANCE * OOZ vertex);
     b \<leftarrow> float_checked (a * - vy vertex);
     p \<leftarrow> static_cast_int b;
     off \<leftarrow> static_cast_int Y_OFFSET;
     int_checked (p + off)
   }"

definition idx :: "Vertex \<Rightarrow> int option" where
  "idx vertex = do {
     xp \<leftarrow> xProjection vertex;
     yp \<leftarrow> yProjection vertex;
     row \<leftarrow> int_checked (yp * SCREEN_WIDTH);
     int_checked (xp + row)
   }"

text \<open>A division by zero makes \<open>OOZ\<close> infinite (or the products not a number), whose
  conversion to \<open>int\<close> is undefined: the write of such a vertex is \<open>None\<close>.\<close>

definition writeVertex :: "Vertex \<Rightarrow> char \<Rightarrow> state \<Rightarrow> state option" where
  "writeVertex vertex character s =
     (if Z vertex = 0 then None
      else do {
        i \<leftarrow> idx vertex;
        Some (if 0 \<le> i \<and> i < SCREEN_SIZE \<and> OOZ vertex > depthBuffer s ! nat i
              then s\<lparr>depthBuffer := (depthBuffer s)[nat i := OOZ vertex],
                     frameBuffer := (frameBuffer s)[nat i := character]\<rparr>
              else s)
      })"

subsection \<open>Output of a frame\<close>

text \<open>The characters \<open>renderFramebuffer\<close> sends to \<open>std::cout\<close>, in order.\<close>

definition renderFramebuffer :: "state \<Rightarrow> string" where
  "renderFramebuffer s =
     map (\<lambda>i. if int i mod SCREEN_WIDTH \<noteq> 0 then frameBuffer s ! i else CHR 0x0A)
       [0..<nat SCREEN_SIZE]"

subsection \<open>Geometry\<close>

text \<open>The loop of \<open>initRing\<close>, from the current value of \<open>x\<close>. The square root of a
  negative number is not a number, and so are the coordinates computed from it; their
  conversion to \<open>int\<close> is undefined.\<close>

function initRing_loop :: "real \<Rightarrow> real \<Rightarrow> char \<Rightarrow> state \<Rightarrow> state option" where
  "initRing_loop x yawOffset character s =
     (if x \<le> RADIUS then
        (if RADIUS * RADIUS - x * x < 0 then None
         else do {
           let y = sqrt (RADIUS * RADIUS - x * x);
           let vertex = rotate_vertex \<lparr>vx = x, vy = y, vz = 0\<rparr> 0 yawOffset 0;
           let vertex = rotate_vertex vertex (pitch s) (yaw s) (roll s);
           s1 \<leftarrow> writeVertex vertex character s;
           let vertex = rotate_vertex \<lparr>vx = x, vy = - y, vz = 0\<rparr> 0 yawOffset 0;
           let vertex = rotate_vertex vertex (pitch s1) (yaw s1) (roll s1);
           s2 \<leftarrow> writeVertex vertex character s1;
           initRing_loop (x + RING_STEP) yawOffset character s2
         })
      else Some s)"
  by pat_completeness auto
termination
proof (relation "measure (\<lambda>(x, yawOffset, character, s). nat (\<lfloor>(RADIUS - x) / RING_STEP\<rfloor> + 1))")
  show "wf (measure (\<lambda>(x, yawOffset, character, s). nat (\<lfloor>(RADIUS - x) / RING_STEP\<rfloor> + 1)))"
    by simp
next
  fix x yawOffset :: real and character :: char and s s1 s2 :: state
  assume le: "x \<le> RADIUS"
  have pos: "0 < RING_STEP"
    by (simp add: RING_STEP_def)
  have e: "(RADIUS - (x + RING_STEP)) / RING_STEP = (RADIUS - x) / RING_STEP - 1"
    using pos by (simp add: field_simps)
  have "0 \<le> (RADIUS - x) / RING_STEP"
    using le pos by simp
  then have "0 \<le> \<lfloor>(RADIUS - x) / RING_STEP\<rfloor>"
    by (simp only: zero_le_floor)
  moreover have "\<lfloor>(RADIUS - x) / RING_STEP - 1\<rfloor> = \<lfloor>(RADIUS - x) / RING_STEP\<rfloor> - 1"
    by (rule floor_diff_one)
  ultimately have "nat (\<lfloor>(RADIUS - (x + RING_STEP)) / RING_STEP\<rfloor> + 1)
      < nat (\<lfloor>(RADIUS - x) / RING_STEP\<rfloor> + 1)"
    unfolding e by linarith
  then show "((x + RING_STEP, yawOffset, character, s2), (x, yawOffset, character, s))
      \<in> measure (\<lambda>(x, yawOffset, character, s). nat (\<lfloor>(RADIUS - x) / RING_STEP\<rfloor> + 1))"
    by simp
qed

definition initRing :: "real \<Rightarrow> char \<Rightarrow> state \<Rightarrow> state option" where
  "initRing yawOffset character s = initRing_loop (- RADIUS) yawOffset character s"

definition initSphere :: "state \<Rightarrow> state option" where
  "initSphere s = do {
     s1 \<leftarrow> initRing 0 CHR ''@'' s;
     s2 \<leftarrow> initRing (degreesToRadians 45) CHR ''$'' s1;
     s3 \<leftarrow> initRing (degreesToRadians 90) CHR ''*'' s2;
     initRing (degreesToRadians 135) CHR ''!'' s3
   }"

definition updateAngles :: "state \<Rightarrow> state" where
  "updateAngles s =
     s\<lparr>pitch := fl32 (pitch s + PITCH_DELTA),
       yaw := fl32 (yaw s + YAW_DELTA),
       roll := fl32 (roll s + ROLL_DELTA)\<rparr>"

text \<open>One iteration of the loop of \<open>render\<close>: the characters it prints and the state it
  leaves.\<close>

definition frame :: "state \<Rightarrow> (string \<times> state) option" where
  "frame s = do {
     s1 \<leftarrow> initSphere (clearBuffers s);
     Some (resetCursor @ renderFramebuffer s1, updateAngles s1)
   }"

subsection \<open>The rotation matrices of the specification\<close>

text \<open>A 3x3 matrix in row-major order, its product with a column vector and with
  another matrix, and the three elementary rotations the specification names.\<close>

datatype Mat3 = Mat3 real real real real real real real real real

fun mat_vec :: "Mat3 \<Rightarrow> Vertex \<Rightarrow> Vertex" where
  "mat_vec (Mat3 a11 a12 a13 a21 a22 a23 a31 a32 a33) p =
     \<lparr>vx = a11 * vx p + a12 * vy p + a13 * vz p,
      vy = a21 * vx p + a22 * vy p + a23 * vz p,
      vz = a31 * vx p + a32 * vy p + a33 * vz p\<rparr>"

fun mat_mul :: "Mat3 \<Rightarrow> Mat3 \<Rightarrow> Mat3" where
  "mat_mul (Mat3 a11 a12 a13 a21 a22 a23 a31 a32 a33) (Mat3 b11 b12 b13 b21 b22 b23 b31 b32 b33) =
     Mat3 (a11 * b11 + a12 * b21 + a13 * b31) (a11 * b12 + a12 * b22 + a13 * b32)
          (a11 * b13 + a12 * b23 + a13 * b33)
          (a21 * b11 + a22 * b21 + a23 * b31) (a21 * b12 + a22 * b22 + a23 * b32)
          (a21 * b13 + a22 * b23 + a23 * b33)
          (a31 * b11 + a32 * b21 + a33 * b31) (a31 * b12 + a32 * b22 + a33 * b32)
          (a31 * b13 + a32 * b23 + a33 * b33)"

definition spec_Rx :: "real \<Rightarrow> Mat3" where
  "spec_Rx a = Mat3 1 0 0 0 (cos a) (- sin a) 0 (sin a) (cos a)"

definition spec_Ry :: "real \<Rightarrow> Mat3" where
  "spec_Ry b = Mat3 (cos b) 0 (sin b) 0 1 0 (- sin b) 0 (cos b)"

definition spec_Rz :: "real \<Rightarrow> Mat3" where
  "spec_Rz c = Mat3 (cos c) (- sin c) 0 (sin c) (cos c) 0 0 0 1"

subsection \<open>The projection of the specification\<close>

text \<open>The screen coordinates as the specification words them: the products are rounded
  to the nearest integer, then half the screen width or height is added.\<close>

definition spec_screen_x :: "Vertex \<Rightarrow> int" where
  "spec_screen_x v =
     round (real_of_int SCREEN_DISTANCE * (1 / (vz v + Z_OFFSET)) * vx v * 2) + SCREEN_WIDTH div 2"

definition spec_screen_y :: "Vertex \<Rightarrow> int" where
  "spec_screen_y v =
     round (real_of_int SCREEN_DISTANCE * (1 / (vz v + Z_OFFSET)) * - vy v) + SCREEN_HEIGHT div 2"

subsection \<open>Rows of the output and sample inputs\<close>

text \<open>Row \<open>r\<close> of the printed frame: a newline, then the cells of columns 1 to 149 of
  that row of the frame buffer.\<close>

definition screen_row :: "state \<Rightarrow> nat \<Rightarrow> string" where
  "screen_row s r =
     CHR 0x0A # map (\<lambda>c. frameBuffer s ! (r * nat SCREEN_WIDTH + c)) [1..<nat SCREEN_WIDTH]"

text \<open>The state at program start: the angles are 0 and the two arrays, of static storage
  duration, are zero-initialised.\<close>

definition initial :: state where
  "initial = \<lparr>pitch = 0, yaw = 0, roll = 0,
     frameBuffer = replicate (nat SCREEN_SIZE) CHR 0x00,
     depthBuffer = replicate (nat SCREEN_SIZE) 0\<rparr>"

text \<open>A cleared canvas whose cell 0 (row 0, column 0) holds \<open>@\<close>.\<close>

definition marked :: state where
  "marked = (clearBuffers initial)
     \<lparr>frameBuffer := (replicate (nat SCREEN_SIZE) CHR '' '')[0 := CHR ''@'']\<rparr>"

text \<open>A vertex whose horizontal product is 35/64, between one half and one. Its
  intermediate values are binary fractions, exact in single precision.\<close>

definition v_half :: Vertex where
  "v_half = \<lparr>vx = 1 / 8, vy = 0, vz = - 4\<rparr>"

text \<open>A vertex whose two products are negative: -35/64 and -35/128.\<close>

definition v_low :: Vertex where
  "v_low = \<lparr>vx = - (1 / 8), vy = 1 / 8, vz = - 4\<rparr>"

text \<open>A state whose pitch has grown to 131072, where neighbouring binary32 values are
  1/64 apart.\<close>

definition stalled :: state where
  "stalled = initial\<lparr>pitch := 131072\<rparr>"

text \<open>A vertex far above the screen, and one far to the right of it.\<close>

definition v_above :: Vertex where
  "v_above = \<lparr>vx = 0, vy = 100, vz = 0\<rparr>"

definition v_right :: Vertex where
  "v_right = \<lparr>vx = 32, vy = 0, vz = - 4\<rparr>"

subsection \<open>Sequences of writes\<close>

text \<open>The calls of \<open>writeVertex\<close> made one after the other since the last clear, each with
  its vertex and glyph.\<close>

fun writes :: "(Vertex \<times> char) list \<Rightarrow> state \<Rightarrow> state option" where
  "writes [] s = Some s"
| "writes ((vertex, character) # ws) s = writeVertex vertex character s \<bind> writes ws"

text \<open>Both arrays have \<open>SCREEN_SIZE\<close> cells, as \<open>std::array\<close> fixes it.\<close>

definition canvas_ok :: "state \<Rightarrow> bool" where
  "canvas_ok s \<longleftrightarrow>
     length (frameBuffer s) = nat SCREEN_SIZE \<and> length (depthBuffer s) = nat SCREEN_SIZE"

text \<open>Three vertices on the axis of view, all projected to the cell 3825 (row 25, column 75):
  one near the camera, one farther away and one behind the camera.\<close>

definition v_near :: Vertex where
  "v_near = \<lparr>vx = 0, vy = 0, vz = - 4\<rparr>"

definition v_far :: Vertex where
  "v_far = \<lparr>vx = 0, vy = 0, vz = 12\<rparr>"

definition v_behind :: Vertex where
  "v_behind = \<lparr>vx = 0, vy = 0, vz = - 30\<rparr>"

text \<open>The cleared canvas after \<open>v_far\<close> and \<open>v_near\<close> were written to it.\<close>

definition two_written :: state where
  "two_written = (clearBuffers initial)
     \<lparr>depthBuffer := (depthBuffer (clearBuffers initial))[3825 := 1 / 16],
      frameBuffer := (frameBuffer (clearBuffers initial))[3825 := CHR ''@'']\<rparr>"

subsection \<open>The sample points of the sphere\<close>

text \<open>The vertices the loop of \<open>initRing\<close> hands to \<open>writeVertex\<close>, in order, from the
  current value of \<open>x\<close>: for each \<open>x\<close> the point of the upper half of the ring, then the
  point of the lower half, both rotated by the ring's offset and then by the animation
  angles.\<close>

function ring_samples :: "real \<Rightarrow> real \<Rightarrow> real \<Rightarrow> real \<Rightarrow> real \<Rightarrow> Vertex list" where
  "ring_samples x yawOffset alpha beta gamma =
     (if x \<le> RADIUS then
        rotate_vertex (rotate_vertex \<lparr>vx = x, vy = sqrt (RADIUS * RADIUS - x * x), vz = 0\<rparr> 0 yawOffset 0)
          alpha beta gamma
        # rotate_vertex (rotate_vertex \<lparr>vx = x, vy = - sqrt (RADIUS * RADIUS - x * x), vz = 0\<rparr> 0 yawOffset 0)
          alpha beta gamma
        # ring_samples (x + RING_STEP) yawOffset alpha beta gamma
      else [])"
  by pat_completeness auto
termination
proof (relation "measure (\<lambda>(x, yawOffset, alpha, beta, gamma). nat (\<lfloor>(RADIUS - x) / RING_STEP\<rfloor> + 1))")
  show "wf (measure (\<lambda>(x, yawOffset, alpha, beta, gamma). nat (\<lfloor>(RADIUS - x) / RING_STEP\<rfloor> + 1)))"
    by simp
next
  fix x yawOffset alpha beta gamma :: real
  assume le: "x \<le> RADIUS"
  have pos: "0 < RING_STEP"
    by (simp add: RING_STEP_def)
  have e: "(RADIUS - (x + RING_STEP)) / RING_STEP = (RADIUS - x) / RING_STEP - 1"
    using pos by (simp add: field_simps)
  have "0 \<le> (RADIUS - x) / RING_STEP"
    using le pos by simp
  then have "0 \<le> \<lfloor>(RADIUS - x) / RING_STEP\<rfloor>"
    by (simp only: zero_le_floor)
  moreover have "\<lfloor>(RADIUS - x) / RING_STEP - 1\<rfloor> = \<lfloor>(RADIUS - x) / RING_STEP\<rfloor> - 1"
    by (rule floor_diff_one)
  ultimately have "nat (\<lfloor>(RADIUS - (x + RING_STEP)) / RING_STEP\<rfloor> + 1)
      < nat (\<lfloor>(RADIUS - x) / RING_STEP\<rfloor> + 1)"
    unfolding e by linarith
  then show "((x + RING_STEP, yawOffset, alpha, beta, gamma), (x, yawOffset, alpha, beta, gamma))
      \<in> measure (\<lambda>(x, yawOffset, alpha, beta, gamma). nat (\<lfloor>(RADIUS - x) / RING_STEP\<rfloor> + 1))"
    by simp
qed

declare ring_samples.simps [simp del]
declare initRing_loop.simps [simp del]

text \<open>The vertices and glyphs of the four rings of \<open>initSphere\<close>, in order.\<close>

definition sphere_samples :: "real \<Rightarrow> real \<Rightarrow> real \<Rightarrow> (Vertex \<times> char) list" where
  "sphere_samples alpha beta gamma =
     map (\<lambda>v. (v, CHR ''@'')) (ring_samples (- RADIUS) 0 alpha beta gamma)
     @ map (\<lambda>v. (v, CHR ''$'')) (ring_samples (- RADIUS) (degreesToRadians 45) alpha beta gamma)
     @ map (\<lambda>v. (v, CHR ''*'')) (ring_samples (- RADIUS) (degreesToRadians 90) alpha beta gamma)
     @ map (\<lambda>v. (v, CHR ''!'')) (ring_samples (- RADIUS) (degreesToRadians 135) alpha beta gamma)"

text \<open>The squared distance of a vertex from the origin.\<close>

definition norm2 :: "Vertex \<Rightarrow> real" where
  "norm2 v = vx v * vx v + vy v * vy v + vz v * vz v"


section \<open>Binary32 rounding\<close>

lemma round_even_prop:
  "\<bar>r - of_int (round_even r)\<bar> < 1 / 2 \<or> (\<bar>r - of_int (round_even r)\<bar> = 1 / 2 \<and> even (round_even r))"
proof -
  define d where "d = r - of_int \<lfloor>r\<rfloor>"
  have f: "0 \<le> d" "d < 1" unfolding d_def by linarith+
  consider "d < 1 / 2" | "1 / 2 < d" | "d = 1 / 2" "even \<lfloor>r\<rfloor>" | "d = 1 / 2" "odd \<lfloor>r\<rfloor>"
    by fastforce
  then show ?thesis
  proof cases
    case 1
    then have "round_even r = \<lfloor>r\<rfloor>" by (simp add: round_even_def d_def)
    then show ?thesis using 1 f by (simp add: d_def)
  next
    case 2
    then have "round_even r = \<lfloor>r\<rfloor> + 1" by (simp add: round_even_def d_def)
    moreover have "\<bar>r - (of_int \<lfloor>r\<rfloor> + 1)\<bar> < 1 / 2" using 2 f unfolding d_def by linarith
    ultimately show ?thesis by simp
  next
    case 3
    then have "round_even r = \<lfloor>r\<rfloor>" by (simp add: round_even_def d_def)
    then show ?thesis using 3 by (simp add: d_def)
  next
    case 4
    then have "round_even r = \<lfloor>r\<rfloor> + 1" by (simp add: round_even_def d_def)
    moreover have "\<bar>r - (of_int \<lfloor>r\<rfloor> + 1)\<bar> = 1 / 2" using 4 unfolding d_def by linarith
    ultimately show ?thesis using 4 by simp
  qed
qed

lemma round_even_eqI:
  assumes "\<bar>r - of_int n\<bar> < 1 / 2 \<or> (\<bar>r - of_int n\<bar> = 1 / 2 \<and> even n)"
  shows "round_even r = n"
proof -
  let ?m = "round_even r"
  note p = round_even_prop [of r]
  have d: "\<bar>real_of_int ?m - real_of_int n\<bar> \<le> 1"
    using p assms by (auto simp: abs_if split: if_splits)
  then have d': "\<bar>?m - n\<bar> \<le> 1" by linarith
  show ?thesis
  proof (rule ccontr)
    assume ne: "?m \<noteq> n"
    then have one: "\<bar>?m - n\<bar> = 1" using d' by linarith
    then have "\<bar>real_of_int ?m - real_of_int n\<bar> = 1" by linarith
    then have h: "\<bar>r - of_int ?m\<bar> = 1 / 2" "\<bar>r - of_int n\<bar> = 1 / 2"
      using p assms by (auto simp: abs_if split: if_splits)
    then have "even ?m" "even n" using p assms by auto
    then have "even (?m - n)" by simp
    then show False using one by presburger
  qed
qed

lemma round_even_of_int [simp]: "round_even (of_int n) = n"
  by (rule round_even_eqI) simp

lemma round_even_minus: "round_even (- r) = - round_even r"
  by (rule round_even_eqI) (use round_even_prop [of r] in \<open>auto simp: abs_if split: if_splits\<close>)

lemma round_even_mono:
  assumes "x \<le> y"
  shows "round_even x \<le> round_even y"
proof (rule ccontr)
  assume n: "\<not> round_even x \<le> round_even y"
  then have "round_even y + 1 \<le> round_even x" by linarith
  then have g: "real_of_int (round_even y) + 1 \<le> real_of_int (round_even x)" by linarith
  have a: "\<bar>x - of_int (round_even x)\<bar> \<le> 1 / 2" "\<bar>y - of_int (round_even y)\<bar> \<le> 1 / 2"
    using round_even_prop [of x] round_even_prop [of y] by auto
  have "y \<le> x" using a g by linarith
  then have "x = y" using assms by simp
  then show False using n by simp
qed

lemma pow2_powr: "pow2 k = 2 powr (real_of_int k)"
  by (simp add: pow2_def powr_int)

lemma pow2_pos [simp]: "0 < pow2 k"
  by (simp add: pow2_powr)

lemma pow2_nonzero [simp]: "pow2 k \<noteq> 0"
  using pow2_pos [of k] by linarith

lemma pow2_not_le_zero [simp]: "\<not> pow2 k \<le> 0"
  using pow2_pos [of k] by linarith

lemma pow2_nonneg [simp]: "0 \<le> pow2 k"
  using pow2_pos [of k] by linarith

lemma pow2_abs [simp]: "\<bar>pow2 k\<bar> = pow2 k"
  by simp

lemma pow2_mono: "a \<le> b \<Longrightarrow> pow2 a \<le> pow2 b"
  by (simp add: pow2_powr)

lemma pow2_add: "pow2 (a + b) = pow2 a * pow2 b"
  by (simp add: pow2_powr powr_add)

lemma pow2_diff: "pow2 (a - b) = pow2 a / pow2 b"
  by (simp add: pow2_powr powr_diff)

lemma pow2_nat: "0 \<le> k \<Longrightarrow> pow2 k = real_of_int (2 ^ nat k)"
  by (simp add: pow2_def)

lemma expo32_eval:
  assumes "pow2 e \<le> \<bar>r\<bar>" and "\<bar>r\<bar> < pow2 (e + 1)"
  shows "expo32 r = max e (- 126)"
proof -
  have pos: "0 < \<bar>r\<bar>" using assms(1) pow2_pos [of e] by linarith
  have "\<lfloor>log 2 \<bar>r\<bar>\<rfloor> = e"
    using assms floor_log_eq_powr_iff [of "\<bar>r\<bar>" 2 e] pos by (simp add: pow2_powr)
  then show ?thesis by (simp add: expo32_def)
qed

lemma expo32_upper:
  assumes "r \<noteq> 0"
  shows "\<bar>r\<bar> < pow2 (expo32 r + 1)"
proof -
  have pos: "0 < \<bar>r\<bar>" using assms by simp
  have "\<bar>r\<bar> < 2 powr (real_of_int \<lfloor>log 2 \<bar>r\<bar>\<rfloor> + 1)"
    using floor_log_eq_powr_iff [of "\<bar>r\<bar>" 2 "\<lfloor>log 2 \<bar>r\<bar>\<rfloor>"] pos by simp
  then have "\<bar>r\<bar> < pow2 (\<lfloor>log 2 \<bar>r\<bar>\<rfloor> + 1)" by (simp add: pow2_powr)
  also have "\<dots> \<le> pow2 (expo32 r + 1)"
    by (rule pow2_mono) (simp add: expo32_def)
  finally show ?thesis .
qed

lemma expo32_lower:
  assumes "r \<noteq> 0" and "- 126 < expo32 r"
  shows "pow2 (expo32 r) \<le> \<bar>r\<bar>"
proof -
  have pos: "0 < \<bar>r\<bar>" using assms by simp
  have e: "expo32 r = \<lfloor>log 2 \<bar>r\<bar>\<rfloor>"
    using assms(2) by (simp add: expo32_def max_def split: if_splits)
  have "2 powr (real_of_int \<lfloor>log 2 \<bar>r\<bar>\<rfloor>) \<le> \<bar>r\<bar>"
    using floor_log_eq_powr_iff [of "\<bar>r\<bar>" 2 "\<lfloor>log 2 \<bar>r\<bar>\<rfloor>"] pos by simp
  then show ?thesis by (simp add: e pow2_powr)
qed

lemma expo32_mono:
  assumes "0 < r" and "r \<le> s"
  shows "expo32 r \<le> expo32 s"
proof -
  have "log 2 r \<le> log 2 s" using assms by simp
  then have "\<lfloor>log 2 r\<rfloor> \<le> \<lfloor>log 2 s\<rfloor>" by (rule floor_mono)
  then show ?thesis using assms by (simp add: expo32_def)
qed

lemma ulp32_pos [simp]: "0 < ulp32 r"
  by (simp add: ulp32_def)

lemma ulp32_nonneg [simp]: "0 \<le> ulp32 r"
  using ulp32_pos [of r] by linarith

lemma ulp32_minus [simp]: "ulp32 (- r) = ulp32 r"
  by (simp add: ulp32_def expo32_def)

lemma fl32_minus: "fl32 (- r) = - fl32 r"
  by (simp add: fl32_def round_even_minus)

lemma fl32_zero [simp]: "fl32 0 = 0"
  by (simp add: fl32_def)

lemma fl32_upper:
  assumes "0 < r"
  shows "fl32 r \<le> pow2 (expo32 r + 1)"
proof -
  have "r / ulp32 r \<le> pow2 (expo32 r + 1) / ulp32 r"
    using expo32_upper [of r] assms by (intro divide_right_mono) simp_all
  also have "\<dots> = pow2 24"
    by (simp add: ulp32_def pow2_diff [symmetric])
  also have "\<dots> = real_of_int (2 ^ 24)" by (simp add: pow2_def)
  finally have "round_even (r / ulp32 r) \<le> round_even (real_of_int (2 ^ 24))"
    by (rule round_even_mono)
  then have "round_even (r / ulp32 r) \<le> 2 ^ 24" by (simp only: round_even_of_int)
  then have "real_of_int (round_even (r / ulp32 r)) \<le> pow2 24"
    by (simp add: pow2_def)
  then have "fl32 r \<le> pow2 24 * ulp32 r"
    using assms by (simp add: fl32_def)
  also have "\<dots> = pow2 (expo32 r + 1)"
    by (simp add: ulp32_def pow2_add [symmetric] add.commute)
  finally show ?thesis .
qed

lemma fl32_lower:
  assumes "0 < r" and "- 126 < expo32 r"
  shows "pow2 (expo32 r) \<le> fl32 r"
proof -
  have "pow2 (expo32 r) / ulp32 r \<le> r / ulp32 r"
    using expo32_lower [of r] assms by (intro divide_right_mono) simp_all
  moreover have "pow2 (expo32 r) / ulp32 r = pow2 23"
    by (simp add: ulp32_def pow2_diff [symmetric])
  moreover have "pow2 23 = real_of_int (2 ^ 23)" by (simp add: pow2_def)
  ultimately have "real_of_int (2 ^ 23) \<le> r / ulp32 r" by simp
  then have "round_even (real_of_int (2 ^ 23)) \<le> round_even (r / ulp32 r)"
    by (rule round_even_mono)
  then have "2 ^ 23 \<le> round_even (r / ulp32 r)" by (simp only: round_even_of_int)
  then have "pow2 23 \<le> real_of_int (round_even (r / ulp32 r))"
    by (simp add: pow2_def)
  then have "pow2 23 * ulp32 r \<le> fl32 r"
    using assms by (simp add: fl32_def)
  moreover have "pow2 23 * ulp32 r = pow2 (expo32 r)"
    by (simp add: ulp32_def pow2_add [symmetric])
  ultimately show ?thesis by simp
qed

lemma fl32_nonneg:
  assumes "0 \<le> r"
  shows "0 \<le> fl32 r"
proof -
  have "0 \<le> r / ulp32 r" using assms by simp
  then have "round_even 0 \<le> round_even (r / ulp32 r)" by (rule round_even_mono)
  moreover have "round_even 0 = 0" using round_even_of_int [of 0] by simp
  ultimately show ?thesis by (simp add: fl32_def)
qed

lemma fl32_mono_pos:
  assumes "0 < r" and "r \<le> s"
  shows "fl32 r \<le> fl32 s"
proof (cases "expo32 r = expo32 s")
  case True
  then have u: "ulp32 r = ulp32 s" by (simp add: ulp32_def)
  have "r / ulp32 s \<le> s / ulp32 s" using assms by (intro divide_right_mono) simp_all
  then have "round_even (r / ulp32 s) \<le> round_even (s / ulp32 s)" by (rule round_even_mono)
  then show ?thesis using assms u by (simp add: fl32_def)
next
  case False
  then have lt: "expo32 r + 1 \<le> expo32 s" using expo32_mono [OF assms] by linarith
  have "- 126 \<le> expo32 r" by (simp add: expo32_def)
  then have big: "- 126 < expo32 s" using lt by linarith
  have "fl32 r \<le> pow2 (expo32 r + 1)" using assms(1) by (rule fl32_upper)
  also have "\<dots> \<le> pow2 (expo32 s)" using lt by (rule pow2_mono)
  also have "\<dots> \<le> fl32 s" using assms big by (intro fl32_lower) simp_all
  finally show ?thesis .
qed

text \<open>Rounding to binary32 is monotone.\<close>

lemma fl32_mono:
  assumes "r \<le> s"
  shows "fl32 r \<le> fl32 s"
proof -
  consider "0 < r" | "r \<le> 0" "0 \<le> s" | "s < 0" by linarith
  then show ?thesis
  proof cases
    case 1
    then show ?thesis using assms by (rule fl32_mono_pos)
  next
    case 2
    have "0 \<le> fl32 (- r)" using 2(1) by (intro fl32_nonneg) simp
    then have "fl32 r \<le> 0" by (simp add: fl32_minus)
    also have "0 \<le> fl32 s" using 2(2) by (rule fl32_nonneg)
    finally show ?thesis .
  next
    case 3
    have "fl32 (- s) \<le> fl32 (- r)" using 3 assms by (intro fl32_mono_pos) simp_all
    then show ?thesis by (simp add: fl32_minus)
  qed
qed

text \<open>The rounding of a number whose binary exponent is known.\<close>

lemma fl32_eval:
  assumes "pow2 e \<le> \<bar>r\<bar>" and "\<bar>r\<bar> < pow2 (e + 1)"
  shows "fl32 r = real_of_int (round_even (r / pow2 (max e (- 126) - 23))) * pow2 (max e (- 126) - 23)"
proof -
  have "r \<noteq> 0" using assms(1) pow2_pos [of e] by auto
  then show ?thesis
    by (simp add: fl32_def ulp32_def expo32_eval [OF assms])
qed

text \<open>A number with at most 24 significant bits and an exponent in range is a binary32
  value: rounding leaves it as it is.\<close>

lemma fl32_exact:
  assumes m: "\<bar>m\<bar> < 2 ^ 24" and k: "- 149 \<le> k"
  shows "fl32 (real_of_int m * pow2 k) = real_of_int m * pow2 k"
proof (cases "m = 0")
  case True
  then show ?thesis by simp
next
  case False
  define r where "r = real_of_int m * pow2 k"
  define u where "u = ulp32 r"
  have r0: "r \<noteq> 0" using False by (simp add: r_def)
  have u0: "0 < u" by (simp add: u_def)
  have "\<bar>r\<bar> = real_of_int \<bar>m\<bar> * pow2 k" by (simp add: r_def abs_mult)
  also have "\<dots> < real_of_int (2 ^ 24) * pow2 k"
    using m by (intro mult_strict_right_mono) simp_all
  also have "\<dots> = pow2 (k + 24)"
  proof -
    have "real_of_int (2 ^ 24) = pow2 24" by (simp add: pow2_def)
    then show ?thesis by (simp only: pow2_add mult.commute)
  qed
  finally have lt: "\<bar>r\<bar> < pow2 (k + 24)" .
  have "log 2 \<bar>r\<bar> < log 2 (pow2 (k + 24))"
    using lt r0 by (intro log_less) simp_all
  also have "\<dots> = real_of_int (k + 24)" by (simp add: pow2_powr)
  finally have "\<lfloor>log 2 \<bar>r\<bar>\<rfloor> < k + 24" by (simp only: floor_less_iff)
  then have e: "expo32 r - 23 \<le> k" using k by (simp add: expo32_def)
  define j where "j = k - (expo32 r - 23)"
  have j: "0 \<le> j" using e by (simp add: j_def)
  have a: "pow2 k = pow2 (j + (expo32 r - 23))"
    by (rule arg_cong [where f = pow2]) (simp add: j_def)
  have kj: "pow2 k = pow2 j * u"
    unfolding u_def ulp32_def by (rule trans [OF a pow2_add])
  have "r / u = real_of_int m * pow2 j"
    using u0 by (simp add: r_def kj)
  also have "\<dots> = real_of_int (m * 2 ^ nat j)" using j by (simp add: pow2_nat)
  finally have "round_even (r / u) = m * 2 ^ nat j" by (simp only: round_even_of_int)
  then have "fl32 r = real_of_int (m * 2 ^ nat j) * u"
    using r0 by (simp add: fl32_def u_def)
  also have "\<dots> = real_of_int m * (pow2 j * u)" using j by (simp add: pow2_nat)
  also have "\<dots> = r" by (simp only: kj [symmetric] r_def)
  finally show ?thesis by (simp only: r_def)
qed

lemma fl32_int: "\<bar>m\<bar> < 2 ^ 24 \<Longrightarrow> fl32 (real_of_int m) = real_of_int m"
  using fl32_exact [of m 0] by (simp add: pow2_def)

lemma fl32_frac:
  assumes "\<bar>m\<bar> < 2 ^ 24" and "n \<le> 149"
  shows "fl32 (real_of_int m / 2 ^ n) = real_of_int m / 2 ^ n"
proof (cases "n = 0")
  case True
  then show ?thesis using fl32_int [OF assms(1)] by simp
next
  case False
  then have "pow2 (- int n) = 1 / 2 ^ n" by (simp add: pow2_def)
  then show ?thesis using fl32_exact [of m "- int n"] assms by simp
qed

lemma fl32_abs_le:
  assumes "\<bar>r\<bar> \<le> b" and "fl32 b = b"
  shows "\<bar>fl32 r\<bar> \<le> b"
proof -
  have "fl32 r \<le> fl32 b" using assms(1) by (intro fl32_mono) linarith
  moreover have "fl32 (- b) \<le> fl32 r" using assms(1) by (intro fl32_mono) linarith
  ultimately show ?thesis using assms(2) by (simp add: fl32_minus abs_le_iff)
qed

text \<open>The values of the sample inputs.\<close>

lemma fl32_ints:
  "fl32 1 = 1" "fl32 8 = 8" "fl32 10 = 10" "fl32 16 = 16" "fl32 20 = 20" "fl32 32 = 32"
  "fl32 70 = 70" "fl32 128 = 128" "fl32 140 = 140" "fl32 256 = 256" "fl32 131072 = 131072"
  "fl32 (- 10) = - 10" "fl32 (- 175) = - 175"
  using fl32_int [of 1] fl32_int [of 8] fl32_int [of 10] fl32_int [of 16] fl32_int [of 20]
    fl32_int [of 32] fl32_int [of 70] fl32_int [of 128] fl32_int [of 140] fl32_int [of 256]
    fl32_int [of 131072] fl32_int [of "- 10"] fl32_int [of "- 175"]
  by simp_all

lemma fl32_fracs:
  "fl32 (1 / 8) = 1 / 8" "fl32 (1 / 16) = 1 / 16" "fl32 (1 / 32) = 1 / 32"
  "fl32 (35 / 16) = 35 / 16" "fl32 (35 / 32) = 35 / 32"
  "fl32 (35 / 64) = 35 / 64" "fl32 (35 / 128) = 35 / 128"
  "fl32 (- (35 / 64)) = - (35 / 64)" "fl32 (- (35 / 128)) = - (35 / 128)"
  using fl32_frac [of 1 3] fl32_frac [of 1 4] fl32_frac [of 1 5] fl32_frac [of 35 4]
    fl32_frac [of 35 5] fl32_frac [of 35 6] fl32_frac [of 35 7]
    fl32_frac [of "- 35" 6] fl32_frac [of "- 35" 7]
  by simp_all

lemma fl32_inexact:
  "fl32 (1 / 20) = 13421773 / 268435456"
  "fl32 (469762055 / 268435456) = 7 / 4"
  "fl32 (- (1 / 10)) = - (13421773 / 134217728)"
  "fl32 (- (469762055 / 134217728)) = - (7 / 2)"
  "fl32 (1 / 200) = 5368709 / 1073741824"
  "fl32 (1 / 1000) = 8589935 / 8589934592"
  "fl32 (140737493724037 / 1073741824) = 131072"
proof -
  show "fl32 (1 / 20) = 13421773 / 268435456"
    by (subst fl32_eval [of "- 5"]) (simp_all add: pow2_def round_even_def)
  show "fl32 (469762055 / 268435456) = 7 / 4"
    by (subst fl32_eval [of 0]) (simp_all add: pow2_def round_even_def)
  show "fl32 (- (1 / 10)) = - (13421773 / 134217728)"
    by (subst fl32_eval [of "- 4"]) (simp_all add: pow2_def round_even_def)
  show "fl32 (- (469762055 / 134217728)) = - (7 / 2)"
    by (subst fl32_eval [of 1]) (simp_all add: pow2_def round_even_def)
  show "fl32 (1 / 200) = 5368709 / 1073741824"
    by (subst fl32_eval [of "- 8"]) (simp_all add: pow2_def round_even_def)
  show "fl32 (1 / 1000) = 8589935 / 8589934592"
    by (subst fl32_eval [of "- 10"]) (simp_all add: pow2_def round_even_def)
  show "fl32 (140737493724037 / 1073741824) = 131072"
    by (subst fl32_eval [of 17]) (simp_all add: pow2_def round_even_def)
qed

section \<open>Rotation\<close>

lemma rotate_sequential:
  "rotate_vertex p alpha beta gamma = mat_vec (spec_Rz gamma) (mat_vec (spec_Ry beta) (mat_vec (spec_Rx alpha) p))"
  by (simp add: rotate_vertex_def rotateCalcX_def rotateCalcY_def rotateCalcZ_def
      spec_Rx_def spec_Ry_def spec_Rz_def algebra_simps)

lemma rotate_product:
  "rotate_vertex p alpha beta gamma = mat_vec (mat_mul (spec_Rz gamma) (mat_mul (spec_Ry beta) (spec_Rx alpha))) p"
  by (simp add: rotate_vertex_def rotateCalcX_def rotateCalcY_def rotateCalcZ_def
      spec_Rx_def spec_Ry_def spec_Rz_def algebra_simps)

text \<open>
  Claim C3. For every point and every triple of angles, \<open>rotate\<close> returns the product of
  the matrix Rz(roll) * Ry(yaw) * Rx(pitch) with the point as a column vector, which is
  the same as applying the pitch rotation first, then the yaw rotation, then the roll
  rotation.
\<close>

theorem rotate_is_Rz_Ry_Rx:
  "rotate_vertex p alpha beta gamma
     = mat_vec (mat_mul (spec_Rz gamma) (mat_mul (spec_Ry beta) (spec_Rx alpha))) p
   \<and> rotate_vertex p alpha beta gamma
     = mat_vec (spec_Rz gamma) (mat_vec (spec_Ry beta) (mat_vec (spec_Rx alpha) p))"
  using rotate_product rotate_sequential by simp

text \<open>
  Claim C9. The rotation by the angles (0, 0, 0) is the identity: it returns every
  point unchanged.
\<close>

theorem rotate_zero_identity:
  "rotate_vertex p 0 0 0 = p"
  by (simp add: rotate_vertex_def rotateCalcX_def rotateCalcY_def rotateCalcZ_def)

section \<open>Animation angles\<close>

lemma delta_values:
  "PITCH_DELTA = 5368709 / 2 ^ 30" "YAW_DELTA = 5368709 / 2 ^ 30" "ROLL_DELTA = 8589935 / 2 ^ 33"
  by (simp_all add: PITCH_DELTA_def YAW_DELTA_def ROLL_DELTA_def fl32_inexact)

text \<open>
  Claim C8 as stated fails. The binary32 constants are 0.005f = 5368709 / 2^30 and
  0.001f = 8589935 / 2^33, which are not in the ratio five, and neither is the decimal
  it is written as; and once the pitch has reached 131072 the sum pitch + 0.005f rounds
  back to the pitch, so that frame does not increment it.
\<close>

theorem updateAngles_stalls:
  "pitch stalled = 131072
   \<and> pitch (updateAngles stalled) = pitch stalled
   \<and> PITCH_DELTA \<noteq> 5 * ROLL_DELTA
   \<and> PITCH_DELTA \<noteq> 5 / 1000"
  by (simp add: stalled_def initial_def updateAngles_def delta_values fl32_inexact)

text \<open>
  Claim C8, as amended. \<open>updateAngles\<close> replaces the pitch, the yaw and the roll by the
  binary32 values nearest to pitch + 0.005f, yaw + 0.005f and roll + 0.001f, where
  0.005f = 5368709 / 2^30 and 0.001f = 8589935 / 2^33 are the binary32 values nearest to
  0.005 and 0.001; the pitch and yaw deltas are equal, five times the roll delta differs
  from them by 3 / 2^33, and the two buffers are left as they were.
\<close>

theorem updateAngles_deltas:
  "pitch (updateAngles s) = fl32 (pitch s + PITCH_DELTA)
   \<and> yaw (updateAngles s) = fl32 (yaw s + YAW_DELTA)
   \<and> roll (updateAngles s) = fl32 (roll s + ROLL_DELTA)
   \<and> PITCH_DELTA = fl32 (5 / 1000) \<and> PITCH_DELTA = 5368709 / 2 ^ 30
   \<and> YAW_DELTA = PITCH_DELTA
   \<and> ROLL_DELTA = fl32 (1 / 1000) \<and> ROLL_DELTA = 8589935 / 2 ^ 33
   \<and> \<bar>PITCH_DELTA - 5 * ROLL_DELTA\<bar> = 3 / 2 ^ 33
   \<and> frameBuffer (updateAngles s) = frameBuffer s
   \<and> depthBuffer (updateAngles s) = depthBuffer s"
proof -
  have "PITCH_DELTA = fl32 (5 / 1000)" "ROLL_DELTA = fl32 (1 / 1000)"
    by (simp_all only: PITCH_DELTA_def ROLL_DELTA_def)
  moreover have "\<bar>PITCH_DELTA - 5 * ROLL_DELTA\<bar> = 3 / 2 ^ 33"
    by (simp add: delta_values)
  moreover have "YAW_DELTA = PITCH_DELTA"
    by (simp only: PITCH_DELTA_def YAW_DELTA_def)
  ultimately show ?thesis
    using delta_values(1,3) by (simp add: updateAngles_def)
qed

section \<open>The printed frame\<close>

lemma map_upt_rows:
  "map f [0..<h * w] = concat (map (\<lambda>r. map (\<lambda>c. f (r * w + c)) [0..<w]) [0..<h])"
proof (induction h)
  case 0
  show ?case by simp
next
  case (Suc h)
  have "[0..<Suc h * w] = [0..<h * w + w]"
    by (simp only: mult_Suc add.commute)
  also have "\<dots> = [0..<h * w] @ [h * w..<h * w + w]"
    by (rule upt_add_eq_append) (rule le0)
  finally have split: "[0..<Suc h * w] = [0..<h * w] @ [h * w..<h * w + w]" .
  have shift: "[h * w..<h * w + w] = map (\<lambda>c. h * w + c) [0..<w]"
    using map_add_upt [of "h * w" w] by (simp only: add.commute [of _ "h * w"])
  have "map f [0..<Suc h * w] = map f [0..<h * w] @ map f (map (\<lambda>c. h * w + c) [0..<w])"
    by (simp only: split shift map_append)
  also have "map f (map (\<lambda>c. h * w + c) [0..<w]) = map (\<lambda>c. f (h * w + c)) [0..<w]"
    by (simp only: map_map comp_def)
  finally show ?case
    by (simp only: Suc.IH upt_Suc_append [OF le0] map_append concat_append list.map concat.simps append_Nil2)
qed

lemma render_row:
  assumes "0 < w"
  shows "map (\<lambda>c. if int (r * w + c) mod int w \<noteq> 0 then fb ! (r * w + c) else nl) [0..<w]
     = nl # map (\<lambda>c. fb ! (r * w + c)) [1..<w]"
proof -
  have c: "[0..<w] = 0 # [1..<w]"
    using assms by (simp add: upt_conv_Cons)
  have m: "int (r * w + c) mod int w \<noteq> 0" if "c \<in> set [1..<w]" for c
  proof -
    have "(r * w + c) mod w = c" using that by simp
    then have "int (r * w + c) mod int w = int c"
      by (metis of_nat_mod)
    then show ?thesis using that by simp
  qed
  have "map (\<lambda>c. if int (r * w + c) mod int w \<noteq> 0 then fb ! (r * w + c) else nl) [1..<w]
      = map (\<lambda>c. fb ! (r * w + c)) [1..<w]"
  proof (rule map_cong [OF refl])
    fix c assume "c \<in> set [1..<w]"
    then have "int (r * w + c) mod int w \<noteq> 0" by (rule m)
    then show "(if int (r * w + c) mod int w \<noteq> 0 then fb ! (r * w + c) else nl) = fb ! (r * w + c)"
      by simp
  qed
  moreover have "int (r * w + 0) mod int w = 0"
    by (simp flip: of_nat_mod)
  ultimately show ?thesis
    unfolding c list.map by simp
qed

lemma renderFramebuffer_rows:
  "renderFramebuffer s = concat (map (screen_row s) [0..<nat SCREEN_HEIGHT])"
proof -
  define w where "w = nat SCREEN_WIDTH"
  define h where "h = nat SCREEN_HEIGHT"
  have w: "0 < w" "SCREEN_WIDTH = int w"
    by (simp_all add: w_def SCREEN_WIDTH_def)
  have n: "nat SCREEN_SIZE = h * w"
    by (simp add: SCREEN_SIZE_def w_def h_def SCREEN_WIDTH_def SCREEN_HEIGHT_def)
  have "renderFramebuffer s
      = map (\<lambda>i. if int i mod int w \<noteq> 0 then frameBuffer s ! i else CHR 0x0A) [0..<h * w]"
    unfolding renderFramebuffer_def n w(2) ..
  also have "\<dots> = concat (map (\<lambda>r. map (\<lambda>c. if int (r * w + c) mod int w \<noteq> 0
      then frameBuffer s ! (r * w + c) else CHR 0x0A) [0..<w]) [0..<h])"
    by (rule map_upt_rows)
  also have "\<dots> = concat (map (\<lambda>r. CHR 0x0A # map (\<lambda>c. frameBuffer s ! (r * w + c)) [1..<w]) [0..<h])"
    unfolding render_row [OF w(1)] ..
  finally show ?thesis
    unfolding screen_row_def w_def h_def .
qed

lemma length_renderFramebuffer: "length (renderFramebuffer s) = nat SCREEN_SIZE"
  by (simp add: renderFramebuffer_def)

lemma nat_SCREEN_SIZE: "nat SCREEN_SIZE = 7500"
  by (simp add: SCREEN_SIZE_def SCREEN_WIDTH_def SCREEN_HEIGHT_def)

lemma nat_SCREEN_WIDTH: "nat SCREEN_WIDTH = 150"
  by (simp add: SCREEN_WIDTH_def)

lemma length_screen_row: "length (screen_row s r) = 150"
proof -
  have "0 < nat SCREEN_WIDTH"
    by (simp add: SCREEN_WIDTH_def)
  then have "length (screen_row s r) = nat SCREEN_WIDTH"
    by (simp add: screen_row_def)
  then show ?thesis
    by (simp only: nat_SCREEN_WIDTH)
qed

text \<open>
  Claim C1, as amended. The characters printed for a frame are the 50 rows one after
  the other; a row is a newline followed by the 149 cells of columns 1 to 149 of that
  row of the frame buffer, so a row is 150 characters and the frame 7500. The cell of
  column 0 of a row is not printed.
\<close>

theorem renderFramebuffer_format:
  "renderFramebuffer s = concat (map (screen_row s) [0..<nat SCREEN_HEIGHT])
   \<and> screen_row s r = CHR 0x0A # map (\<lambda>c. frameBuffer s ! (r * nat SCREEN_WIDTH + c)) [1..<nat SCREEN_WIDTH]
   \<and> length (screen_row s r) = 150
   \<and> length (renderFramebuffer s) = 7500"
proof (intro conjI)
  show "renderFramebuffer s = concat (map (screen_row s) [0..<nat SCREEN_HEIGHT])"
    by (rule renderFramebuffer_rows)
  show "screen_row s r = CHR 0x0A # map (\<lambda>c. frameBuffer s ! (r * nat SCREEN_WIDTH + c)) [1..<nat SCREEN_WIDTH]"
    by (rule screen_row_def)
  show "length (screen_row s r) = 150"
    by (rule length_screen_row)
  show "length (renderFramebuffer s) = 7500"
    unfolding length_renderFramebuffer by (rule nat_SCREEN_SIZE)
qed

lemma marked_hidden: "CHR ''@'' \<notin> set (renderFramebuffer marked)"
proof
  assume "CHR ''@'' \<in> set (renderFramebuffer marked)"
  then obtain i where i: "i < nat SCREEN_SIZE"
    and e: "(if int i mod SCREEN_WIDTH \<noteq> 0 then frameBuffer marked ! i else CHR 0x0A) = CHR ''@''"
    unfolding renderFramebuffer_def by (auto simp del: upt_rec_numeral)
  show False
  proof (cases "i = 0")
    case True
    then show ?thesis using e by (simp add: SCREEN_WIDTH_def)
  next
    case False
    then have "frameBuffer marked ! i = CHR '' ''"
      using i by (simp add: marked_def)
    then show ?thesis using e by (simp split: if_splits)
  qed
qed

text \<open>
  Claim C1 as stated fails. On the cleared canvas whose cell 0 holds \<open>@\<close>, the frame is
  7500 characters (not 50 rows of a newline and 150 cells, which would be 7550), and the
  glyph of cell 0 occurs nowhere in it: the output does not reproduce every cell.
\<close>

theorem renderFramebuffer_drops_first_column:
  "frameBuffer marked ! 0 = CHR ''@''
   \<and> CHR ''@'' \<notin> set (renderFramebuffer marked)
   \<and> length (renderFramebuffer marked) = 7500"
proof (intro conjI)
  show "frameBuffer marked ! 0 = CHR ''@''"
    by (simp add: marked_def nat_SCREEN_SIZE)
  show "CHR ''@'' \<notin> set (renderFramebuffer marked)"
    by (rule marked_hidden)
  show "length (renderFramebuffer marked) = 7500"
    unfolding length_renderFramebuffer by (rule nat_SCREEN_SIZE)
qed

section \<open>Projection\<close>

lemma trunc_abs_le: "\<bar>real_of_int (trunc r)\<bar> \<le> \<bar>r\<bar>"
proof (cases "0 \<le> r")
  case True
  then have "0 \<le> \<lfloor>r\<rfloor>" by simp
  then show ?thesis using True by (simp add: trunc_def)
next
  case False
  then have "\<lceil>r\<rceil> \<le> 0" by (simp add: ceiling_le_zero)
  moreover have "r \<le> real_of_int \<lceil>r\<rceil>" by simp
  ultimately show ?thesis using False by (simp add: trunc_def)
qed

lemma static_cast_int_offsets:
  "static_cast_int X_OFFSET = Some 75" "static_cast_int Y_OFFSET = Some 25"
  by (simp_all add: static_cast_int_def int_checked_def trunc_def X_OFFSET_def Y_OFFSET_def
      SCREEN_WIDTH_def SCREEN_HEIGHT_def INT_MIN_def INT_MAX_def)

text \<open>A truncated float plus an offset between 0 and 100, as the code computes it: the
  conversion and the sum are defined exactly when the results are \<open>int\<close>s.\<close>

lemma cast_plus_offset:
  assumes "static_cast_int off = Some k" and "0 \<le> k" and "k \<le> 100"
  shows "do { p \<leftarrow> static_cast_int c; off \<leftarrow> static_cast_int off; int_checked (p + off) }
     = (if INT_MIN \<le> trunc c \<and> trunc c + k \<le> INT_MAX then Some (trunc c + k) else None)"
proof (cases "INT_MIN \<le> trunc c \<and> trunc c + k \<le> INT_MAX")
  case True
  then have "INT_MIN \<le> trunc c \<and> trunc c \<le> INT_MAX"
    and "INT_MIN \<le> trunc c + k \<and> trunc c + k \<le> INT_MAX"
    using assms(2) by linarith+
  then show ?thesis
    using True assms(1) by (simp add: static_cast_int_def int_checked_def)
next
  case False
  then have "\<not> (INT_MIN \<le> trunc c \<and> trunc c \<le> INT_MAX)
      \<or> \<not> (INT_MIN \<le> trunc c + k \<and> trunc c + k \<le> INT_MAX)"
    using assms(2) by linarith
  then show ?thesis
    using False assms(1) by (auto simp: static_cast_int_def int_checked_def)
qed

lemma xProjection_eq:
  "xProjection v =
     (let a = fl32 (real_of_int SCREEN_DISTANCE * OOZ v); b = fl32 (a * vx v); c = fl32 (b * 2)
      in if \<bar>a\<bar> \<le> FLT_MAX \<and> \<bar>b\<bar> \<le> FLT_MAX \<and> \<bar>c\<bar> \<le> FLT_MAX
            \<and> INT_MIN \<le> trunc c \<and> trunc c + SCREEN_WIDTH div 2 \<le> INT_MAX
         then Some (trunc c + SCREEN_WIDTH div 2) else None)"
proof -
  have w: "SCREEN_WIDTH div 2 = 75" by (simp add: SCREEN_WIDTH_def)
  show ?thesis
    unfolding xProjection_def w Let_def
    by (simp add: float_checked_def cast_plus_offset [OF static_cast_int_offsets(1)])
qed

lemma yProjection_eq:
  "yProjection v =
     (let a = fl32 (real_of_int SCREEN_DISTANCE * OOZ v); b = fl32 (a * - vy v)
      in if \<bar>a\<bar> \<le> FLT_MAX \<and> \<bar>b\<bar> \<le> FLT_MAX
            \<and> INT_MIN \<le> trunc b \<and> trunc b + SCREEN_HEIGHT div 2 \<le> INT_MAX
         then Some (trunc b + SCREEN_HEIGHT div 2) else None)"
proof -
  have h: "SCREEN_HEIGHT div 2 = 25" by (simp add: SCREEN_HEIGHT_def)
  show ?thesis
    unfolding yProjection_def h Let_def
    by (simp add: float_checked_def cast_plus_offset [OF static_cast_int_offsets(2)])
qed

lemmas eval_defs = Z_def OOZ_def xProjection_eq yProjection_eq idx_def Let_def
  int_checked_def trunc_def Z_OFFSET_def SCREEN_DISTANCE_def FLT_MAX_def
  SCREEN_WIDTH_def SCREEN_HEIGHT_def SCREEN_SIZE_def INT_MIN_def INT_MAX_def
  fl32_ints fl32_fracs fl32_inexact

text \<open>
  Claim C2 as stated fails. The vertex (1/8, 0, -4) has a nonzero translated depth and
  the horizontal product 35/64, all of whose factors are binary32 values; the code
  truncates it to 0 and yields the column 75, where rounding to the nearest integer
  yields 76.
\<close>

theorem projection_not_rounded:
  "Z v_half \<noteq> 0 \<and> xProjection v_half = Some 75 \<and> spec_screen_x v_half = 76"
  by (simp add: v_half_def spec_screen_x_def round_def eval_defs)

text \<open>
  Claim C2, as amended. For every vertex with z + zOffset not 0, the projector computes
  the translated depth Z = fl (z + zOffset), invZ = fl (1 / Z), the column
  trunc (fl (fl (fl (screenDistance * invZ) * x) * 2)) + screenWidth / 2 and the row
  trunc (fl (fl (screenDistance * invZ) * - y)) + screenHeight / 2, where fl rounds to
  the nearest binary32 value and trunc drops the fraction (rounding toward zero). The
  column, or the row, is defined exactly when its products are finite and its truncated
  product and that plus the offset are \<open>int\<close>s; otherwise the behaviour is undefined.
\<close>

theorem projection_truncates:
  assumes "Z v \<noteq> 0"
  shows "Z v = fl32 (vz v + Z_OFFSET) \<and> OOZ v = fl32 (1 / Z v)
     \<and> xProjection v =
         (let a = fl32 (real_of_int SCREEN_DISTANCE * OOZ v); b = fl32 (a * vx v); c = fl32 (b * 2)
          in if \<bar>a\<bar> \<le> FLT_MAX \<and> \<bar>b\<bar> \<le> FLT_MAX \<and> \<bar>c\<bar> \<le> FLT_MAX
                \<and> INT_MIN \<le> trunc c \<and> trunc c + SCREEN_WIDTH div 2 \<le> INT_MAX
             then Some (trunc c + SCREEN_WIDTH div 2) else None)
     \<and> yProjection v =
         (let a = fl32 (real_of_int SCREEN_DISTANCE * OOZ v); b = fl32 (a * - vy v)
          in if \<bar>a\<bar> \<le> FLT_MAX \<and> \<bar>b\<bar> \<le> FLT_MAX
                \<and> INT_MIN \<le> trunc b \<and> trunc b + SCREEN_HEIGHT div 2 \<le> INT_MAX
             then Some (trunc b + SCREEN_HEIGHT div 2) else None)"
  using xProjection_eq [of v] yProjection_eq [of v] by (simp add: Z_def OOZ_def)

theorem projection_truncates_witness:
  "Z v_low \<noteq> 0 \<and> OOZ v_low = 1 / 16
   \<and> xProjection v_low = Some 75 \<and> yProjection v_low = Some 25"
proof -
  have z: "Z v_low \<noteq> 0"
    by (simp add: v_low_def Z_def Z_OFFSET_def fl32_ints)
  have v: "vx v_low = - (1 / 8)" "vy v_low = 1 / 8" "vz v_low = - 4"
    by (simp_all add: v_low_def)
  show ?thesis
    using z projection_truncates [OF z]
    by (simp add: v Let_def Z_OFFSET_def SCREEN_DISTANCE_def FLT_MAX_def SCREEN_WIDTH_def
        SCREEN_HEIGHT_def INT_MIN_def INT_MAX_def trunc_def fl32_ints fl32_fracs)
qed

section \<open>Writes outside the canvas\<close>

text \<open>
  Claim C5. A vertex whose flattened index lies outside [0, SCREEN_SIZE) is discarded:
  \<open>writeVertex\<close> returns the state it was given, so no cell of the frame buffer or of the
  depth buffer changes, and no error is raised.
\<close>

theorem writeVertex_out_of_bounds:
  assumes "Z v \<noteq> 0" and "idx v = Some i" and "i < 0 \<or> SCREEN_SIZE \<le> i"
  shows "writeVertex v ch s = Some s"
  using assms by (auto simp: writeVertex_def)

theorem writeVertex_out_of_bounds_witness:
  "Z v_above \<noteq> 0
   \<and> idx v_above = Some (- 22425)
   \<and> writeVertex v_above CHR ''@'' (clearBuffers initial) = Some (clearBuffers initial)"
proof -
  have z: "Z v_above \<noteq> 0"
    by (simp add: v_above_def eval_defs)
  have i: "idx v_above = Some (- 22425)"
    by (simp add: v_above_def eval_defs)
  have o: "(- 22425 :: int) < 0 \<or> SCREEN_SIZE \<le> - 22425"
    by simp
  show ?thesis
    using z i writeVertex_out_of_bounds [OF z i o] by simp
qed

lemma v_right_eval:
  "xProjection v_right = Some 215"
  "yProjection v_right = Some 25"
  "idx v_right = Some 3965"
  "OOZ v_right = 1 / 16"
  "Z v_right = 16"
  by (simp_all add: v_right_def eval_defs)

lemma v_right_write:
  "writeVertex v_right ch (clearBuffers s)
     = Some ((clearBuffers s)\<lparr>depthBuffer := (depthBuffer (clearBuffers s))[3965 := 1 / 16],
            frameBuffer := (frameBuffer (clearBuffers s))[3965 := ch]\<rparr>)"
  by (simp add: writeVertex_def v_right_eval clearBuffers_def SCREEN_SIZE_def SCREEN_WIDTH_def
      SCREEN_HEIGHT_def)

text \<open>
  Claim C10. There is a rotated point whose column lies outside [0, SCREEN_WIDTH) while
  its flattened index lies inside [0, SCREEN_SIZE): the point (32, 0, -4) has column 215
  and row 25, its index 3965 passes the bounds check, and its glyph is written to the
  cell of column 65 of row 26, the row below.
\<close>

theorem horizontal_overflow_wraps:
  "\<exists>p xp yp i. xProjection (rotate_vertex p 0 0 0) = Some xp
     \<and> yProjection (rotate_vertex p 0 0 0) = Some yp
     \<and> idx (rotate_vertex p 0 0 0) = Some i
     \<and> (xp < 0 \<or> SCREEN_WIDTH \<le> xp)
     \<and> 0 \<le> yp \<and> yp < SCREEN_HEIGHT
     \<and> 0 \<le> i \<and> i < SCREEN_SIZE
     \<and> i div SCREEN_WIDTH = yp + 1
     \<and> i mod SCREEN_WIDTH = xp - SCREEN_WIDTH
     \<and> (\<exists>s'. writeVertex (rotate_vertex p 0 0 0) CHR ''@'' (clearBuffers s) = Some s'
           \<and> frameBuffer s' ! nat i = CHR ''@''
           \<and> frameBuffer (clearBuffers s) ! nat i = CHR '' '')"
proof -
  have r: "rotate_vertex v_right 0 0 0 = v_right"
    by (simp add: rotate_vertex_def rotateCalcX_def rotateCalcY_def rotateCalcZ_def)
  show ?thesis
    apply (rule exI [of _ v_right])
    apply (rule exI [of _ 215])
    apply (rule exI [of _ 25])
    apply (rule exI [of _ 3965])
    apply (simp add: r v_right_eval v_right_write)
    apply (simp add: clearBuffers_def SCREEN_SIZE_def SCREEN_WIDTH_def SCREEN_HEIGHT_def)
    done
qed

section \<open>The depth test\<close>

lemma canvas_ok_clearBuffers: "canvas_ok (clearBuffers s)"
  by (simp add: canvas_ok_def clearBuffers_def)

lemma writeVertex_cases:
  assumes "writeVertex v ch s = Some s'"
  obtains i where "Z v \<noteq> 0" "idx v = Some i"
    "s' = (if 0 \<le> i \<and> i < SCREEN_SIZE \<and> OOZ v > depthBuffer s ! nat i
           then s\<lparr>depthBuffer := (depthBuffer s)[nat i := OOZ v],
                  frameBuffer := (frameBuffer s)[nat i := ch]\<rparr>
           else s)"
  using assms unfolding writeVertex_def
  by (auto split: if_splits bind_splits)

lemma writeVertex_preserves:
  assumes "writeVertex v ch s = Some s'"
  shows "pitch s' = pitch s" "yaw s' = yaw s" "roll s' = roll s"
    "length (frameBuffer s') = length (frameBuffer s)"
    "length (depthBuffer s') = length (depthBuffer s)"
  using assms by (auto elim!: writeVertex_cases split: if_splits)

lemma writeVertex_canvas_ok:
  "writeVertex v ch s = Some s' \<Longrightarrow> canvas_ok s \<Longrightarrow> canvas_ok s'"
  by (simp add: canvas_ok_def writeVertex_preserves)

text \<open>The effect of one write on one cell.\<close>

lemma writeVertex_cell:
  assumes w: "writeVertex v ch s = Some s'" and ok: "canvas_ok s" and i: "i < nat SCREEN_SIZE"
  shows "(idx v = Some (int i) \<and> depthBuffer s ! i < OOZ v
            \<and> depthBuffer s' ! i = OOZ v \<and> frameBuffer s' ! i = ch)
         \<or> (\<not> (idx v = Some (int i) \<and> depthBuffer s ! i < OOZ v)
            \<and> depthBuffer s' ! i = depthBuffer s ! i \<and> frameBuffer s' ! i = frameBuffer s ! i)"
proof -
  from w obtain j where j: "idx v = Some j"
    and s': "s' = (if 0 \<le> j \<and> j < SCREEN_SIZE \<and> OOZ v > depthBuffer s ! nat j
           then s\<lparr>depthBuffer := (depthBuffer s)[nat j := OOZ v],
                  frameBuffer := (frameBuffer s)[nat j := ch]\<rparr>
           else s)"
    by (rule writeVertex_cases)
  have len: "i < length (depthBuffer s)" "i < length (frameBuffer s)"
    using ok i by (simp_all add: canvas_ok_def)
  show ?thesis
  proof (cases "j = int i")
    case True
    then have "nat j = i" "0 \<le> j" "j < SCREEN_SIZE" using i by auto
    then show ?thesis using j s' len True by auto
  next
    case False
    then have "0 \<le> j \<Longrightarrow> nat j \<noteq> i" by auto
    then show ?thesis using j s' len False by (auto simp: nth_list_update)
  qed
qed

lemma writes_canvas_ok:
  "writes ws s = Some s' \<Longrightarrow> canvas_ok s \<Longrightarrow> canvas_ok s'"
proof (induction ws arbitrary: s)
  case Nil
  then show ?case by simp
next
  case (Cons w ws)
  obtain v ch where w: "w = (v, ch)" by (cases w)
  from Cons.prems(1) obtain s1 where s1: "writeVertex v ch s = Some s1" and r: "writes ws s1 = Some s'"
    unfolding w by (auto split: bind_splits)
  show ?case
    using Cons.IH [OF r] writeVertex_canvas_ok [OF s1 Cons.prems(2)] by simp
qed

lemma writes_mono:
  "writes ws s = Some s' \<Longrightarrow> canvas_ok s \<Longrightarrow> i < nat SCREEN_SIZE
     \<Longrightarrow> depthBuffer s ! i \<le> depthBuffer s' ! i"
proof (induction ws arbitrary: s)
  case Nil
  then show ?case by simp
next
  case (Cons w ws)
  obtain v ch where w: "w = (v, ch)" by (cases w)
  from Cons.prems(1) obtain s1 where s1: "writeVertex v ch s = Some s1" and r: "writes ws s1 = Some s'"
    unfolding w by (auto split: bind_splits)
  have ok1: "canvas_ok s1" using s1 Cons.prems(2) by (rule writeVertex_canvas_ok)
  have "depthBuffer s ! i \<le> depthBuffer s1 ! i"
    using writeVertex_cell [OF s1 Cons.prems(2) Cons.prems(3)] by auto
  also have "\<dots> \<le> depthBuffer s' ! i"
    using r ok1 Cons.prems(3) by (rule Cons.IH)
  finally show ?case .
qed

text \<open>The stored depth bounds the inverse depth of every write to the cell.\<close>

lemma writes_upper:
  "writes ws s = Some s' \<Longrightarrow> canvas_ok s \<Longrightarrow> i < nat SCREEN_SIZE
     \<Longrightarrow> (v, ch) \<in> set ws \<Longrightarrow> idx v = Some (int i) \<Longrightarrow> OOZ v \<le> depthBuffer s' ! i"
proof (induction ws arbitrary: s)
  case Nil
  then show ?case by simp
next
  case (Cons w ws)
  obtain v0 ch0 where w: "w = (v0, ch0)" by (cases w)
  from Cons.prems(1) obtain s1 where s1: "writeVertex v0 ch0 s = Some s1" and r: "writes ws s1 = Some s'"
    unfolding w by (auto split: bind_splits)
  have ok1: "canvas_ok s1" using s1 Cons.prems(2) by (rule writeVertex_canvas_ok)
  show ?case
  proof (cases "(v, ch) = (v0, ch0)")
    case True
    then have "idx v0 = Some (int i)" using Cons.prems(5) by simp
    then have "OOZ v0 \<le> depthBuffer s1 ! i"
      using writeVertex_cell [OF s1 Cons.prems(2) Cons.prems(3)] by auto
    also have "\<dots> \<le> depthBuffer s' ! i"
      using r ok1 Cons.prems(3) by (rule writes_mono)
    finally show ?thesis using True by simp
  next
    case False
    then have "(v, ch) \<in> set ws" using Cons.prems(4) w by auto
    then show ?thesis
      using Cons.IH [OF r ok1 Cons.prems(3) _ Cons.prems(5)] by simp
  qed
qed

text \<open>A cell either is as it was, or holds the depth and glyph of one of the writes.\<close>

lemma writes_provenance:
  "writes ws s = Some s' \<Longrightarrow> canvas_ok s \<Longrightarrow> i < nat SCREEN_SIZE
     \<Longrightarrow> (depthBuffer s' ! i = depthBuffer s ! i \<and> frameBuffer s' ! i = frameBuffer s ! i)
       \<or> (\<exists>(v, ch) \<in> set ws. idx v = Some (int i) \<and> depthBuffer s ! i < OOZ v
             \<and> OOZ v = depthBuffer s' ! i \<and> frameBuffer s' ! i = ch)"
proof (induction ws arbitrary: s)
  case Nil
  then show ?case by simp
next
  case (Cons w ws)
  obtain v0 ch0 where w: "w = (v0, ch0)" by (cases w)
  from Cons.prems(1) obtain s1 where s1: "writeVertex v0 ch0 s = Some s1" and r: "writes ws s1 = Some s'"
    unfolding w by (auto split: bind_splits)
  have ok1: "canvas_ok s1" using s1 Cons.prems(2) by (rule writeVertex_canvas_ok)
  have step: "(idx v0 = Some (int i) \<and> depthBuffer s ! i < OOZ v0
            \<and> depthBuffer s1 ! i = OOZ v0 \<and> frameBuffer s1 ! i = ch0)
         \<or> (depthBuffer s1 ! i = depthBuffer s ! i \<and> frameBuffer s1 ! i = frameBuffer s ! i)"
    using writeVertex_cell [OF s1 Cons.prems(2) Cons.prems(3)] by auto
  have le: "depthBuffer s ! i \<le> depthBuffer s1 ! i"
    using step by auto
  from Cons.IH [OF r ok1 Cons.prems(3)]
  show ?case
  proof
    assume same: "depthBuffer s' ! i = depthBuffer s1 ! i \<and> frameBuffer s' ! i = frameBuffer s1 ! i"
    from step show ?thesis
    proof
      assume "idx v0 = Some (int i) \<and> depthBuffer s ! i < OOZ v0
            \<and> depthBuffer s1 ! i = OOZ v0 \<and> frameBuffer s1 ! i = ch0"
      then show ?thesis using same w by auto
    next
      assume "depthBuffer s1 ! i = depthBuffer s ! i \<and> frameBuffer s1 ! i = frameBuffer s ! i"
      then show ?thesis using same by simp
    qed
  next
    assume "\<exists>(v, ch) \<in> set ws. idx v = Some (int i) \<and> depthBuffer s1 ! i < OOZ v
             \<and> OOZ v = depthBuffer s' ! i \<and> frameBuffer s' ! i = ch"
    then obtain v ch where m: "(v, ch) \<in> set ws" and p: "idx v = Some (int i)"
      "depthBuffer s1 ! i < OOZ v" "OOZ v = depthBuffer s' ! i" "frameBuffer s' ! i = ch"
      by auto
    have "depthBuffer s ! i < OOZ v" using le p(2) by linarith
    then have "\<exists>(v, ch) \<in> set (w # ws). idx v = Some (int i) \<and> depthBuffer s ! i < OOZ v
             \<and> OOZ v = depthBuffer s' ! i \<and> frameBuffer s' ! i = ch"
      using m p by (intro bexI [of _ "(v, ch)"]) auto
    then show ?thesis ..
  qed
qed

lemma writeVertex_at:
  assumes "Z a \<noteq> 0" and "idx a = Some (int i)" and "i < nat SCREEN_SIZE"
  shows "writeVertex a ca s = Some (if depthBuffer s ! i < OOZ a
           then s\<lparr>depthBuffer := (depthBuffer s)[i := OOZ a], frameBuffer := (frameBuffer s)[i := ca]\<rparr>
           else s)"
  using assms by (auto simp: writeVertex_def)

lemma two_writes_commute:
  assumes ok: "canvas_ok s" and i: "i < nat SCREEN_SIZE"
    and a: "Z a \<noteq> 0" "idx a = Some (int i)" and b: "Z b \<noteq> 0" "idx b = Some (int i)"
    and near: "OOZ b < OOZ a" and pass: "depthBuffer s ! i < OOZ a"
  shows "writes [(a, ca), (b, cb)] s
           = Some (s\<lparr>depthBuffer := (depthBuffer s)[i := OOZ a], frameBuffer := (frameBuffer s)[i := ca]\<rparr>)"
    and "writes [(b, cb), (a, ca)] s
           = Some (s\<lparr>depthBuffer := (depthBuffer s)[i := OOZ a], frameBuffer := (frameBuffer s)[i := ca]\<rparr>)"
proof -
  have len: "i < length (depthBuffer s)" "i < length (frameBuffer s)"
    using ok i by (simp_all add: canvas_ok_def)
  show "writes [(a, ca), (b, cb)] s
           = Some (s\<lparr>depthBuffer := (depthBuffer s)[i := OOZ a], frameBuffer := (frameBuffer s)[i := ca]\<rparr>)"
    using near pass len
    by (simp add: writeVertex_at [OF a i] writeVertex_at [OF b i])
  show "writes [(b, cb), (a, ca)] s
           = Some (s\<lparr>depthBuffer := (depthBuffer s)[i := OOZ a], frameBuffer := (frameBuffer s)[i := ca]\<rparr>)"
    using near pass len
    by (simp add: writeVertex_at [OF a i] writeVertex_at [OF b i])
qed

text \<open>
  Claim C4, as amended. After any sequence of writes to a cleared canvas, for every cell:
  the stored depth is at least the inverse depth of every point written to the cell; if
  some point written to the cell has a positive inverse depth, the stored depth and glyph
  are those of a point written to the cell, hence of one with the largest inverse depth;
  otherwise the cell still holds depth 0 and the blank. A further write to the cell
  overwrites depth and glyph when its inverse depth is strictly greater than the stored
  depth and is discarded otherwise. For two writes A and B to the cell, A with the
  strictly greater inverse depth and passing the depth test, both orders end in the
  same canvas, with A's glyph and depth in the cell.
\<close>

theorem depth_test_nearest_wins:
  assumes w: "writes ws (clearBuffers s) = Some s'" and i: "i < nat SCREEN_SIZE"
  shows
   "(\<forall>(v, ch) \<in> set ws. idx v = Some (int i) \<longrightarrow> OOZ v \<le> depthBuffer s' ! i)
    \<and> ((\<exists>(v, ch) \<in> set ws. idx v = Some (int i) \<and> 0 < OOZ v) \<longrightarrow>
         (\<exists>(v, ch) \<in> set ws. idx v = Some (int i) \<and> OOZ v = depthBuffer s' ! i
            \<and> frameBuffer s' ! i = ch))
    \<and> (\<not> (\<exists>(v, ch) \<in> set ws. idx v = Some (int i) \<and> 0 < OOZ v) \<longrightarrow>
         depthBuffer s' ! i = 0 \<and> frameBuffer s' ! i = CHR '' '')
    \<and> (\<forall>a ca. Z a \<noteq> 0 \<and> idx a = Some (int i) \<longrightarrow>
         writeVertex a ca s' = Some (if depthBuffer s' ! i < OOZ a
           then s'\<lparr>depthBuffer := (depthBuffer s')[i := OOZ a],
                   frameBuffer := (frameBuffer s')[i := ca]\<rparr>
           else s'))
    \<and> (\<forall>a ca b cb. Z a \<noteq> 0 \<and> Z b \<noteq> 0 \<and> idx a = Some (int i) \<and> idx b = Some (int i)
           \<and> OOZ b < OOZ a \<and> depthBuffer s' ! i < OOZ a \<longrightarrow>
         (\<exists>u. writes [(a, ca), (b, cb)] s' = Some u \<and> writes [(b, cb), (a, ca)] s' = Some u
            \<and> frameBuffer u ! i = ca \<and> depthBuffer u ! i = OOZ a))"
proof -
  have ok: "canvas_ok (clearBuffers s)" by (rule canvas_ok_clearBuffers)
  have ok': "canvas_ok s'" using w ok by (rule writes_canvas_ok)
  have len: "i < length (depthBuffer s')" "i < length (frameBuffer s')"
    using ok' i by (simp_all add: canvas_ok_def)
  have c0: "depthBuffer (clearBuffers s) ! i = 0" "frameBuffer (clearBuffers s) ! i = CHR '' ''"
    using i by (simp_all add: clearBuffers_def)
  have upper: "\<forall>(v, ch) \<in> set ws. idx v = Some (int i) \<longrightarrow> OOZ v \<le> depthBuffer s' ! i"
    using writes_upper [OF w ok i] by auto
  have prov: "(depthBuffer s' ! i = 0 \<and> frameBuffer s' ! i = CHR '' '')
       \<or> (\<exists>(v, ch) \<in> set ws. idx v = Some (int i) \<and> 0 < OOZ v
             \<and> OOZ v = depthBuffer s' ! i \<and> frameBuffer s' ! i = ch)"
    using writes_provenance [OF w ok i] unfolding c0 .
  have some: "\<exists>(v, ch) \<in> set ws. idx v = Some (int i) \<and> OOZ v = depthBuffer s' ! i
            \<and> frameBuffer s' ! i = ch"
    if "\<exists>(v, ch) \<in> set ws. idx v = Some (int i) \<and> 0 < OOZ v"
  proof -
    from that obtain v ch where "(v, ch) \<in> set ws" "idx v = Some (int i)" "0 < OOZ v" by auto
    then have "0 < depthBuffer s' ! i" using upper by fastforce
    then show ?thesis using prov by auto
  qed
  have none: "depthBuffer s' ! i = 0 \<and> frameBuffer s' ! i = CHR '' ''"
    if "\<not> (\<exists>(v, ch) \<in> set ws. idx v = Some (int i) \<and> 0 < OOZ v)"
    using prov that by auto
  have single: "\<forall>a ca. Z a \<noteq> 0 \<and> idx a = Some (int i) \<longrightarrow>
         writeVertex a ca s' = Some (if depthBuffer s' ! i < OOZ a
           then s'\<lparr>depthBuffer := (depthBuffer s')[i := OOZ a],
                   frameBuffer := (frameBuffer s')[i := ca]\<rparr>
           else s')"
    using writeVertex_at [OF _ _ i] by blast
  have order: "\<exists>u. writes [(a, ca), (b, cb)] s' = Some u \<and> writes [(b, cb), (a, ca)] s' = Some u
            \<and> frameBuffer u ! i = ca \<and> depthBuffer u ! i = OOZ a"
    if "Z a \<noteq> 0 \<and> Z b \<noteq> 0 \<and> idx a = Some (int i) \<and> idx b = Some (int i)
           \<and> OOZ b < OOZ a \<and> depthBuffer s' ! i < OOZ a" for a ca b cb
  proof -
    let ?u = "s'\<lparr>depthBuffer := (depthBuffer s')[i := OOZ a], frameBuffer := (frameBuffer s')[i := ca]\<rparr>"
    have "writes [(a, ca), (b, cb)] s' = Some ?u" "writes [(b, cb), (a, ca)] s' = Some ?u"
      using two_writes_commute [OF ok' i, of a b] that by blast+
    moreover have "frameBuffer ?u ! i = ca" "depthBuffer ?u ! i = OOZ a"
      using len by simp_all
    ultimately show ?thesis by blast
  qed
  show ?thesis
    using upper some none single order by blast
qed

lemma centre_eval:
  "idx v_near = Some 3825" "OOZ v_near = 1 / 16" "Z v_near = 16"
  "idx v_far = Some 3825" "OOZ v_far = 1 / 32" "Z v_far = 32"
  "idx v_behind = Some 3825" "OOZ v_behind = - (13421773 / 134217728)" "Z v_behind = - 10"
  by (simp_all add: v_near_def v_far_def v_behind_def eval_defs)

lemma size_7500: "SCREEN_SIZE = 7500"
  by (simp add: SCREEN_SIZE_def SCREEN_WIDTH_def SCREEN_HEIGHT_def)

lemma two_writes_eval:
  "writes [(v_far, CHR ''$''), (v_near, CHR ''@'')] (clearBuffers initial) = Some two_written"
  by (simp add: writeVertex_def centre_eval two_written_def clearBuffers_def size_7500)

text \<open>
  Claim C4 as stated fails. The only point written to the cell 3825 of a cleared canvas
  is \<open>v_behind\<close> with the glyph \<open>@\<close>; its inverse depth, the binary32 value
  -13421773 / 2^27 nearest to -1/10, is not greater than the cleared depth 0, the write
  is discarded, and the cell holds the blank, not the glyph of the point with the
  largest inverse depth written to it.
\<close>

theorem behind_camera_not_stored:
  "Z v_behind \<noteq> 0 \<and> idx v_behind = Some 3825 \<and> OOZ v_behind = - (13421773 / 2 ^ 27)
   \<and> writes [(v_behind, CHR ''@'')] (clearBuffers initial) = Some (clearBuffers initial)
   \<and> frameBuffer (clearBuffers initial) ! 3825 = CHR '' ''"
  by (simp add: writeVertex_def centre_eval clearBuffers_def size_7500)

theorem depth_test_nearest_wins_witness:
  "writes [(v_far, CHR ''$''), (v_near, CHR ''@'')] (clearBuffers initial) = Some two_written
   \<and> (3825 :: nat) < nat SCREEN_SIZE
   \<and> (\<exists>(v, ch) \<in> set [(v_far, CHR ''$''), (v_near, CHR ''@'')]. idx v = Some (int 3825) \<and> 0 < OOZ v)
   \<and> (\<exists>(v, ch) \<in> set [(v_far, CHR ''$''), (v_near, CHR ''@'')].
         idx v = Some (int 3825) \<and> OOZ v = depthBuffer two_written ! 3825
         \<and> frameBuffer two_written ! 3825 = ch)
   \<and> frameBuffer two_written ! 3825 = CHR ''@''
   \<and> depthBuffer two_written ! 3825 = 1 / 16"
proof -
  have i: "(3825 :: nat) < nat SCREEN_SIZE"
    by (simp add: size_7500)
  have p: "\<exists>(v, ch) \<in> set [(v_far, CHR ''$''), (v_near, CHR ''@'')]. idx v = Some (int 3825) \<and> 0 < OOZ v"
    by (simp add: centre_eval)
  have v: "frameBuffer two_written ! 3825 = CHR ''@''" "depthBuffer two_written ! 3825 = 1 / 16"
    by (simp_all add: two_written_def clearBuffers_def size_7500)
  show ?thesis
    using depth_test_nearest_wins [OF two_writes_eval i] two_writes_eval i p v by blast
qed

section \<open>Repeating a sequence of writes\<close>

text \<open>Drawing a list of writes a second time changes nothing.\<close>

lemma writes_noop:
  "writes ws s = Some s' \<Longrightarrow> canvas_ok s \<Longrightarrow> canvas_ok t
     \<Longrightarrow> (\<And>i. i < nat SCREEN_SIZE \<Longrightarrow> depthBuffer s' ! i \<le> depthBuffer t ! i)
     \<Longrightarrow> writes ws t = Some t"
proof (induction ws arbitrary: s)
  case Nil
  then show ?case by simp
next
  case (Cons w ws)
  obtain v ch where w: "w = (v, ch)" by (cases w)
  from Cons.prems(1) obtain s1 where s1: "writeVertex v ch s = Some s1" and r: "writes ws s1 = Some s'"
    unfolding w by (auto split: bind_splits)
  have ok1: "canvas_ok s1" using s1 Cons.prems(2) by (rule writeVertex_canvas_ok)
  from s1 obtain j where z: "Z v \<noteq> 0" and j: "idx v = Some j"
    by (rule writeVertex_cases)
  have "\<not> (0 \<le> j \<and> j < SCREEN_SIZE \<and> OOZ v > depthBuffer t ! nat j)"
  proof
    assume a: "0 \<le> j \<and> j < SCREEN_SIZE \<and> OOZ v > depthBuffer t ! nat j"
    then have n: "nat j < nat SCREEN_SIZE" and e: "idx v = Some (int (nat j))"
      using j by auto
    have "OOZ v \<le> depthBuffer s1 ! nat j"
      using writeVertex_cell [OF s1 Cons.prems(2) n] e by auto
    also have "\<dots> \<le> depthBuffer s' ! nat j"
      using r ok1 n by (rule writes_mono)
    also have "\<dots> \<le> depthBuffer t ! nat j"
      using n by (rule Cons.prems(4))
    finally show False using a by simp
  qed
  then have "writeVertex v ch t = Some t"
    using z j by (auto simp: writeVertex_def)
  moreover have "writes ws t = Some t"
    using r ok1 Cons.prems(3) Cons.prems(4) by (rule Cons.IH)
  ultimately show ?case
    unfolding w by simp
qed

lemma writes_idem:
  "writes ws s = Some s' \<Longrightarrow> canvas_ok s \<Longrightarrow> writes ws s' = Some s'"
  using writes_noop [of ws s s' s'] writes_canvas_ok [of ws s s'] by simp

lemma writes_append: "writes (xs @ ys) s = writes xs s \<bind> writes ys"
  by (induction xs arbitrary: s) (auto split: bind_splits)

section \<open>The sample points lie on the sphere\<close>

lemma plane_rotation:
  fixes p q :: real
  shows "(p * cos t - q * sin t) * (p * cos t - q * sin t) + (p * sin t + q * cos t) * (p * sin t + q * cos t)
     = p * p + q * q"
proof -
  have c: "cos t * cos t = 1 - sin t * sin t"
    using sin_cos_squared_add3 [of t] by linarith
  show ?thesis
    by (simp add: algebra_simps c)
qed

lemma norm2_Rx: "norm2 (mat_vec (spec_Rx a) p) = norm2 p"
  using plane_rotation [of "vy p" a "vz p"]
  by (simp add: norm2_def spec_Rx_def algebra_simps)

lemma norm2_Ry: "norm2 (mat_vec (spec_Ry b) p) = norm2 p"
  using plane_rotation [of "vz p" b "vx p"]
  by (simp add: norm2_def spec_Ry_def algebra_simps)

lemma norm2_Rz: "norm2 (mat_vec (spec_Rz c) p) = norm2 p"
  using plane_rotation [of "vx p" c "vy p"]
  by (simp add: norm2_def spec_Rz_def algebra_simps)

lemma norm2_rotate: "norm2 (rotate_vertex p a b c) = norm2 p"
  by (simp add: rotate_sequential norm2_Rx norm2_Ry norm2_Rz)

lemma norm2_ring_point:
  assumes "- RADIUS \<le> x" and "x \<le> RADIUS"
  shows "norm2 \<lparr>vx = x, vy = sqrt (RADIUS * RADIUS - x * x), vz = 0\<rparr> = RADIUS * RADIUS"
    and "norm2 \<lparr>vx = x, vy = - sqrt (RADIUS * RADIUS - x * x), vz = 0\<rparr> = RADIUS * RADIUS"
proof -
  have "\<bar>x\<bar> \<le> \<bar>RADIUS\<bar>" using assms by (simp add: RADIUS_def abs_le_iff)
  then have "x\<^sup>2 \<le> RADIUS\<^sup>2" by (simp only: abs_le_square_iff)
  then have nn: "0 \<le> RADIUS * RADIUS - x * x" by (simp add: power2_eq_square)
  have sq: "sqrt (RADIUS * RADIUS - x * x) * sqrt (RADIUS * RADIUS - x * x) = RADIUS * RADIUS - x * x"
    using nn by simp
  show "norm2 \<lparr>vx = x, vy = sqrt (RADIUS * RADIUS - x * x), vz = 0\<rparr> = RADIUS * RADIUS"
    using nn by (simp add: norm2_def)
  show "norm2 \<lparr>vx = x, vy = - sqrt (RADIUS * RADIUS - x * x), vz = 0\<rparr> = RADIUS * RADIUS"
    using nn by (simp add: norm2_def)
qed

lemma ring_samples_norm2:
  "- RADIUS \<le> x \<Longrightarrow> v \<in> set (ring_samples x yawOffset alpha beta gamma)
     \<Longrightarrow> norm2 v = RADIUS * RADIUS"
proof (induction x yawOffset alpha beta gamma rule: ring_samples.induct)
  case (1 x yawOffset alpha beta gamma)
  show ?case
  proof (cases "x \<le> RADIUS")
    case False
    then show ?thesis using "1.prems"(2) by (simp add: ring_samples.simps [of x])
  next
    case True
    have step: "- RADIUS \<le> x + RING_STEP"
      using "1.prems"(1) by (simp add: RING_STEP_def)
    from "1.prems"(2) True
    consider "v = rotate_vertex (rotate_vertex \<lparr>vx = x, vy = sqrt (RADIUS * RADIUS - x * x), vz = 0\<rparr> 0 yawOffset 0) alpha beta gamma"
      | "v = rotate_vertex (rotate_vertex \<lparr>vx = x, vy = - sqrt (RADIUS * RADIUS - x * x), vz = 0\<rparr> 0 yawOffset 0) alpha beta gamma"
      | "v \<in> set (ring_samples (x + RING_STEP) yawOffset alpha beta gamma)"
      by (subst (asm) ring_samples.simps) auto
    then show ?thesis
    proof cases
      case 1
      then show ?thesis
        by (simp only: norm2_rotate norm2_ring_point(1) [OF "1.prems"(1) True])
    next
      case 2
      then show ?thesis
        by (simp only: norm2_rotate norm2_ring_point(2) [OF "1.prems"(1) True])
    next
      case 3
      then show ?thesis
        using "1.IH" [OF True step] by simp
    qed
  qed
qed

lemma norm2_bounds:
  assumes "norm2 v = RADIUS * RADIUS"
  shows "\<bar>vx v\<bar> \<le> 10" "\<bar>vy v\<bar> \<le> 10" "\<bar>vz v\<bar> \<le> 10"
proof -
  have n: "vx v * vx v + vy v * vy v + vz v * vz v = 10\<^sup>2"
    using assms by (simp add: norm2_def RADIUS_def)
  have nn: "0 \<le> vx v * vx v" "0 \<le> vy v * vy v" "0 \<le> vz v * vz v"
    by simp_all
  have "(vx v)\<^sup>2 \<le> 10\<^sup>2" using n nn unfolding power2_eq_square [of "vx v"] by linarith
  then show "\<bar>vx v\<bar> \<le> 10" using abs_le_square_iff [of "vx v" 10] by simp
  have "(vy v)\<^sup>2 \<le> 10\<^sup>2" using n nn unfolding power2_eq_square [of "vy v"] by linarith
  then show "\<bar>vy v\<bar> \<le> 10" using abs_le_square_iff [of "vy v" 10] by simp
  have "(vz v)\<^sup>2 \<le> 10\<^sup>2" using n nn unfolding power2_eq_square [of "vz v"] by linarith
  then show "\<bar>vz v\<bar> \<le> 10" using abs_le_square_iff [of "vz v" 10] by simp
qed

lemma ring_samples_depth:
  assumes "v \<in> set (ring_samples (- RADIUS) yawOffset alpha beta gamma)"
  shows "10 \<le> vz v + 20" "10 \<le> Z v" "Z v \<le> 32" "0 < OOZ v" "OOZ v \<le> 1 / 8"
    "\<bar>vx v\<bar> \<le> 10" "\<bar>vy v\<bar> \<le> 10"
proof -
  have n: "norm2 v = RADIUS * RADIUS"
    using assms by (rule ring_samples_norm2 [OF order_refl])
  note b = norm2_bounds [OF n]
  show e: "10 \<le> vz v + 20" using b(3) by (simp add: abs_le_iff)
  have "fl32 10 \<le> fl32 (vz v + 20)" using e by (rule fl32_mono)
  then show z: "10 \<le> Z v" by (simp add: Z_def Z_OFFSET_def fl32_ints)
  have "vz v + 20 \<le> 32" using b(3) by (simp add: abs_le_iff)
  then have "fl32 (vz v + 20) \<le> fl32 32" by (rule fl32_mono)
  then show z': "Z v \<le> 32" by (simp add: Z_def Z_OFFSET_def fl32_ints)
  have "1 / 32 \<le> 1 / Z v" using z z' by (simp add: field_simps)
  then have "fl32 (1 / 32) \<le> fl32 (1 / Z v)" by (rule fl32_mono)
  then show "0 < OOZ v" by (simp add: OOZ_def fl32_fracs)
  have "1 / Z v \<le> 1 / 8" using z by (simp add: field_simps)
  then have "fl32 (1 / Z v) \<le> fl32 (1 / 8)" by (rule fl32_mono)
  then show "OOZ v \<le> 1 / 8" by (simp add: OOZ_def fl32_fracs)
  show "\<bar>vx v\<bar> \<le> 10" "\<bar>vy v\<bar> \<le> 10" by (rule b)+
qed

lemma idx_fits:
  fixes p q :: int
  assumes "\<bar>p\<bar> \<le> 256" "\<bar>q\<bar> \<le> 128"
  shows "INT_MIN \<le> p \<and> p + 75 \<le> INT_MAX \<and> INT_MIN \<le> q \<and> q + 25 \<le> INT_MAX
     \<and> INT_MIN \<le> (q + 25) * 150 \<and> (q + 25) * 150 \<le> INT_MAX
     \<and> INT_MIN \<le> p + 75 + (q + 25) * 150 \<and> p + 75 + (q + 25) * 150 \<le> INT_MAX"
proof -
  have "- 256 \<le> p" "p \<le> 256" "- 128 \<le> q" "q \<le> 128" using assms by linarith+
  then show ?thesis by (simp add: algebra_simps INT_MIN_def INT_MAX_def)
qed

text \<open>The write of a vertex of the sphere is defined: its products are small.\<close>

lemma writeVertex_defined:
  assumes z: "10 \<le> Z v" and z': "Z v \<le> 32" and x: "\<bar>vx v\<bar> \<le> 10" and y: "\<bar>vy v\<bar> \<le> 10"
  shows "\<exists>s'. writeVertex v ch s = Some s'"
proof -
  from z have z0: "Z v \<noteq> 0" by simp
  have "1 / Z v \<le> 1 / 8" using z by (simp add: field_simps)
  then have "fl32 (1 / Z v) \<le> fl32 (1 / 8)" by (rule fl32_mono)
  then have k1: "OOZ v \<le> 1 / 8" by (simp add: OOZ_def fl32_fracs)
  have "0 \<le> 1 / Z v" using z by simp
  then have k0: "0 \<le> OOZ v" unfolding OOZ_def by (rule fl32_nonneg)
  define a where "a = fl32 (real_of_int SCREEN_DISTANCE * OOZ v)"
  define b where "b = fl32 (a * vx v)"
  define c where "c = fl32 (b * 2)"
  define b' where "b' = fl32 (a * - vy v)"
  have big: "(256 :: real) \<le> FLT_MAX" by (simp add: FLT_MAX_def)
  have "\<bar>real_of_int SCREEN_DISTANCE * OOZ v\<bar> \<le> 8"
    using k0 k1 by (simp add: SCREEN_DISTANCE_def abs_mult)
  then have a: "\<bar>a\<bar> \<le> 8"
    unfolding a_def by (rule fl32_abs_le) (rule fl32_ints)
  have "\<bar>a * vx v\<bar> \<le> 8 * 10"
    unfolding abs_mult using a x by (intro mult_mono) simp_all
  then have "\<bar>a * vx v\<bar> \<le> 128" by simp
  then have b: "\<bar>b\<bar> \<le> 128"
    unfolding b_def by (rule fl32_abs_le) (rule fl32_ints)
  then have "\<bar>b * 2\<bar> \<le> 256" by (simp add: abs_mult)
  then have c: "\<bar>c\<bar> \<le> 256"
    unfolding c_def by (rule fl32_abs_le) (rule fl32_ints)
  have "\<bar>a * - vy v\<bar> \<le> 8 * 10"
    unfolding abs_mult using a y by (intro mult_mono) simp_all
  then have "\<bar>a * - vy v\<bar> \<le> 128" by simp
  then have b': "\<bar>b'\<bar> \<le> 128"
    unfolding b'_def by (rule fl32_abs_le) (rule fl32_ints)
  have tc: "\<bar>trunc c\<bar> \<le> 256"
    using trunc_abs_le [of c] c by linarith
  have tb: "\<bar>trunc b'\<bar> \<le> 128"
    using trunc_abs_le [of b'] b' by linarith
  note f = idx_fits [OF tc tb]
  have w: "SCREEN_WIDTH div 2 = 75" "SCREEN_HEIGHT div 2 = 25" "SCREEN_WIDTH = 150"
    by (simp_all add: SCREEN_WIDTH_def SCREEN_HEIGHT_def)
  have xp: "xProjection v = Some (trunc c + 75)"
    unfolding xProjection_eq Let_def a_def [symmetric] b_def [symmetric] c_def [symmetric]
    using a b c big f by (simp add: w)
  have yp: "yProjection v = Some (trunc b' + 25)"
    unfolding yProjection_eq Let_def a_def [symmetric] b'_def [symmetric]
    using a b' big f by (simp add: w)
  have row: "int_checked ((trunc b' + 25) * SCREEN_WIDTH) = Some ((trunc b' + 25) * SCREEN_WIDTH)"
    using f by (simp add: int_checked_def w)
  have sum: "int_checked (trunc c + 75 + (trunc b' + 25) * SCREEN_WIDTH)
      = Some (trunc c + 75 + (trunc b' + 25) * SCREEN_WIDTH)"
    using f by (simp add: int_checked_def w)
  have "idx v = Some (trunc c + 75 + (trunc b' + 25) * SCREEN_WIDTH)"
    unfolding idx_def xp yp by (simp only: Option.bind.bind_lunit row sum)
  then show ?thesis
    using z0 by (simp add: writeVertex_def)
qed

lemma writes_defined:
  assumes "\<And>v ch. (v, ch) \<in> set ws \<Longrightarrow> 10 \<le> Z v \<and> Z v \<le> 32 \<and> \<bar>vx v\<bar> \<le> 10 \<and> \<bar>vy v\<bar> \<le> 10"
  shows "\<exists>s'. writes ws s = Some s'"
  using assms
proof (induction ws arbitrary: s)
  case Nil
  show ?case by simp
next
  case (Cons w ws)
  obtain v ch where w: "w = (v, ch)" by (cases w)
  have "10 \<le> Z v \<and> Z v \<le> 32 \<and> \<bar>vx v\<bar> \<le> 10 \<and> \<bar>vy v\<bar> \<le> 10"
    using Cons.prems [of v ch] w by simp
  then obtain s1 where s1: "writeVertex v ch s = Some s1"
    using writeVertex_defined [of v ch s] by blast
  have "\<exists>s'. writes ws s1 = Some s'"
    by (rule Cons.IH) (use Cons.prems in auto)
  then show ?case
    unfolding w using s1 by simp
qed

lemma writes_angles:
  "writes ws s = Some s' \<Longrightarrow> pitch s' = pitch s \<and> yaw s' = yaw s \<and> roll s' = roll s"
proof (induction ws arbitrary: s)
  case Nil
  then show ?case by simp
next
  case (Cons w ws)
  obtain v ch where w: "w = (v, ch)" by (cases w)
  from Cons.prems(1) obtain s1 where s1: "writeVertex v ch s = Some s1" and r: "writes ws s1 = Some s'"
    unfolding w by (auto split: bind_splits)
  show ?case
    using Cons.IH [OF r] writeVertex_preserves(1-3) [OF s1] by simp
qed

lemma initRing_loop_writes:
  "- RADIUS \<le> x \<Longrightarrow> pitch s = alpha \<Longrightarrow> yaw s = beta \<Longrightarrow> roll s = gamma
     \<Longrightarrow> initRing_loop x yawOffset character s
         = writes (map (\<lambda>v. (v, character)) (ring_samples x yawOffset alpha beta gamma)) s"
proof (induction x yawOffset alpha beta gamma arbitrary: s rule: ring_samples.induct)
  case (1 x yawOffset alpha beta gamma)
  show ?case
  proof (cases "x \<le> RADIUS")
    case False
    then show ?thesis
      by (simp add: initRing_loop.simps [of x] ring_samples.simps [of x])
  next
    case True
    have step: "- RADIUS \<le> x + RING_STEP"
      using "1.prems"(1) by (simp add: RING_STEP_def)
    have "\<bar>x\<bar> \<le> \<bar>RADIUS\<bar>" using "1.prems"(1) True by (simp add: RADIUS_def abs_le_iff)
    then have "x\<^sup>2 \<le> RADIUS\<^sup>2" by (simp only: abs_le_square_iff)
    then have nn: "\<not> RADIUS * RADIUS - x * x < 0" by (simp add: power2_eq_square)
    let ?v1 = "rotate_vertex (rotate_vertex \<lparr>vx = x, vy = sqrt (RADIUS * RADIUS - x * x), vz = 0\<rparr> 0 yawOffset 0) alpha beta gamma"
    let ?v2 = "rotate_vertex (rotate_vertex \<lparr>vx = x, vy = - sqrt (RADIUS * RADIUS - x * x), vz = 0\<rparr> 0 yawOffset 0) alpha beta gamma"
    have rs: "ring_samples x yawOffset alpha beta gamma
        = ?v1 # ?v2 # ring_samples (x + RING_STEP) yawOffset alpha beta gamma"
      using True by (simp add: ring_samples.simps [of x])
    show ?thesis
    proof (cases "writeVertex ?v1 character s")
      case None
      then show ?thesis
        using True nn "1.prems"(2-4)
        by (simp add: initRing_loop.simps [of x] rs Let_def)
    next
      case (Some s1)
      note a1 = writeVertex_preserves(1-3) [OF Some]
      show ?thesis
      proof (cases "writeVertex ?v2 character s1")
        case None
        then show ?thesis
          using True nn "1.prems"(2-4) Some a1
          by (simp add: initRing_loop.simps [of x] rs Let_def)
      next
        case (Some s2)
        note a2 = writeVertex_preserves(1-3) [OF Some]
        have "initRing_loop (x + RING_STEP) yawOffset character s2
            = writes (map (\<lambda>v. (v, character)) (ring_samples (x + RING_STEP) yawOffset alpha beta gamma)) s2"
          by (rule "1.IH" [OF True step]) (use a1 a2 "1.prems" in simp_all)
        then show ?thesis
          using True nn "1.prems"(2-4) \<open>writeVertex ?v1 character s = Some s1\<close> Some a1
          by (simp add: initRing_loop.simps [of x] rs Let_def)
      qed
    qed
  qed
qed

lemma initRing_writes:
  "initRing yawOffset character s
     = writes (map (\<lambda>v. (v, character)) (ring_samples (- RADIUS) yawOffset (pitch s) (yaw s) (roll s))) s"
  unfolding initRing_def by (rule initRing_loop_writes) simp_all



section \<open>Drawing the sphere twice\<close>

lemma initSphere_writes:
  "initSphere s = writes (sphere_samples (pitch s) (yaw s) (roll s)) s"
proof -
  have r: "initRing yo ch t
      = writes (map (\<lambda>v. (v, ch)) (ring_samples (- RADIUS) yo (pitch s) (yaw s) (roll s))) t"
    if "pitch t = pitch s \<and> yaw t = yaw s \<and> roll t = roll s" for yo ch t
    using that by (simp add: initRing_writes)
  have k: "writes ws t \<bind> (\<lambda>u. initRing yo ch u \<bind> f)
      = writes ws t \<bind> (\<lambda>u. writes (map (\<lambda>v. (v, ch))
          (ring_samples (- RADIUS) yo (pitch s) (yaw s) (roll s))) u \<bind> f)"
    if "pitch t = pitch s \<and> yaw t = yaw s \<and> roll t = roll s" for ws t yo ch f
  proof (cases "writes ws t")
    case None
    then show ?thesis by simp
  next
    case (Some u)
    then have "pitch u = pitch s \<and> yaw u = yaw s \<and> roll u = roll s"
      using writes_angles [OF Some] that by simp
    then show ?thesis using Some by (simp add: r)
  qed
  have k': "writes ws t \<bind> (\<lambda>u. initRing yo ch u)
      = writes ws t \<bind> (\<lambda>u. writes (map (\<lambda>v. (v, ch))
          (ring_samples (- RADIUS) yo (pitch s) (yaw s) (roll s))) u)"
    if "pitch t = pitch s \<and> yaw t = yaw s \<and> roll t = roll s" for ws t yo ch
    using k [OF that, of ws yo ch Some] by simp
  let ?A = "map (\<lambda>v. (v, CHR ''@'')) (ring_samples (- RADIUS) 0 (pitch s) (yaw s) (roll s))"
  let ?B = "map (\<lambda>v. (v, CHR ''$'')) (ring_samples (- RADIUS) (degreesToRadians 45) (pitch s) (yaw s) (roll s))"
  let ?C = "map (\<lambda>v. (v, CHR ''*'')) (ring_samples (- RADIUS) (degreesToRadians 90) (pitch s) (yaw s) (roll s))"
  let ?D = "map (\<lambda>v. (v, CHR ''!'')) (ring_samples (- RADIUS) (degreesToRadians 135) (pitch s) (yaw s) (roll s))"
  have "initSphere s = writes ?A s \<bind> (\<lambda>s1. initRing (degreesToRadians 45) CHR ''$'' s1
      \<bind> (\<lambda>s2. initRing (degreesToRadians 90) CHR ''*'' s2 \<bind> initRing (degreesToRadians 135) CHR ''!''))"
    unfolding initSphere_def by (simp add: r)
  also have "\<dots> = writes ?A s \<bind> (\<lambda>s1. writes ?B s1
      \<bind> (\<lambda>s2. initRing (degreesToRadians 90) CHR ''*'' s2 \<bind> initRing (degreesToRadians 135) CHR ''!''))"
    by (rule k) simp
  also have "\<dots> = writes (?A @ ?B) s
      \<bind> (\<lambda>s2. initRing (degreesToRadians 90) CHR ''*'' s2 \<bind> initRing (degreesToRadians 135) CHR ''!'')"
    by (simp add: writes_append)
  also have "\<dots> = writes (?A @ ?B) s \<bind> (\<lambda>s2. writes ?C s2 \<bind> initRing (degreesToRadians 135) CHR ''!'')"
    by (rule k) simp
  also have "\<dots> = writes ((?A @ ?B) @ ?C) s \<bind> (\<lambda>s3. initRing (degreesToRadians 135) CHR ''!'' s3)"
    by (simp add: writes_append)
  also have "\<dots> = writes ((?A @ ?B) @ ?C) s \<bind> (\<lambda>s3. writes ?D s3)"
    by (rule k') simp
  also have "\<dots> = writes (((?A @ ?B) @ ?C) @ ?D) s"
    by (simp only: writes_append [symmetric])
  finally show ?thesis
    by (simp add: sphere_samples_def)
qed

lemma sphere_samples_bounds:
  assumes "(v, ch) \<in> set (sphere_samples alpha beta gamma)"
  shows "10 \<le> Z v \<and> Z v \<le> 32 \<and> \<bar>vx v\<bar> \<le> 10 \<and> \<bar>vy v\<bar> \<le> 10"
proof -
  from assms obtain yo where "v \<in> set (ring_samples (- RADIUS) yo alpha beta gamma)"
    unfolding sphere_samples_def by auto
  then show ?thesis
    using ring_samples_depth(2,3,6,7) by blast
qed

lemma clearBuffers_angles:
  "pitch (clearBuffers s) = pitch s" "yaw (clearBuffers s) = yaw s" "roll (clearBuffers s) = roll s"
  by (simp_all add: clearBuffers_def)

lemma clearBuffers_same_angles:
  "pitch t = pitch s \<Longrightarrow> yaw t = yaw s \<Longrightarrow> roll t = roll s \<Longrightarrow> clearBuffers t = clearBuffers s"
  by (simp add: clearBuffers_def)

text \<open>
  Claim C7. Drawing the sphere into a freshly cleared canvas succeeds; drawing it a
  second time at the same angles leaves the canvas as it is, glyphs and depths alike;
  and clearing and drawing again, from any state with the same angles, yields the same
  canvas.
\<close>

theorem draw_twice_same:
  "\<exists>s1. initSphere (clearBuffers s) = Some s1
     \<and> initSphere s1 = Some s1
     \<and> initSphere (clearBuffers s1) = Some s1
     \<and> (\<forall>t. pitch t = pitch s \<and> yaw t = yaw s \<and> roll t = roll s \<longrightarrow>
           initSphere (clearBuffers t) = Some s1)"
proof -
  let ?c = "clearBuffers s"
  let ?ws = "sphere_samples (pitch s) (yaw s) (roll s)"
  have c: "initSphere ?c = writes ?ws ?c"
    by (simp add: initSphere_writes clearBuffers_angles)
  obtain s1 where s1: "writes ?ws ?c = Some s1"
    using writes_defined [of ?ws ?c] sphere_samples_bounds by blast
  have a: "pitch s1 = pitch s \<and> yaw s1 = yaw s \<and> roll s1 = roll s"
    using writes_angles [OF s1] by (simp add: clearBuffers_angles)
  have "writes ?ws s1 = Some s1"
    using s1 canvas_ok_clearBuffers by (rule writes_idem)
  then have again: "initSphere s1 = Some s1"
    using a by (simp add: initSphere_writes)
  have same: "initSphere (clearBuffers t) = Some s1"
    if "pitch t = pitch s \<and> yaw t = yaw s \<and> roll t = roll s" for t
    using that c s1 clearBuffers_same_angles [of t s] by simp
  show ?thesis
    using c s1 again same a by auto
qed

theorem draw_twice_same_witness:
  "pitch marked = pitch initial \<and> yaw marked = yaw initial \<and> roll marked = roll initial
   \<and> (\<exists>s1. initSphere (clearBuffers initial) = Some s1 \<and> initSphere s1 = Some s1
         \<and> initSphere (clearBuffers marked) = Some s1)"
proof -
  have a: "pitch marked = pitch initial \<and> yaw marked = yaw initial \<and> roll marked = roll initial"
    by (simp add: marked_def clearBuffers_def)
  show ?thesis
    using a draw_twice_same [of initial] by blast
qed

end
